theory Spec2Isabelle
  imports Complex_Main "HOL-Library.Log_Nat"
begin

section \<open>ECMAScript strings\<close>

text \<open>
  The formatting code of \<^verbatim>\<open>src/index.tsx\<close> works on strings and numbers only. A
  string is modelled as a list of code units below 256, that is Latin-1 text. White
  space is TAB, LF, VT, FF, CR, SP and the no-break space U+00A0. The letters \<^verbatim>\<open>a-z\<close>
  and U+00E0 to U+00FE but U+00F7 have their capital 32 below, the letters \<^verbatim>\<open>A-Z\<close> and
  U+00C0 to U+00DE but U+00D7 have their small letter 32 above, and the capital of
  U+00DF is the two letters \<^verbatim>\<open>SS\<close>. The capitals of U+00FF and U+00B5 are U+0178 and
  U+039C, which are no code units below 256: text with these two letters is beyond the
  strings modelled here, and \<open>upper_char\<close> leaves the two letters as they are.
\<close>

definition code_unit :: "char \<Rightarrow> nat" where
  "code_unit c = of_char c"

definition is_white_space :: "char \<Rightarrow> bool" where
  "is_white_space c = (code_unit c \<in> {9, 10, 11, 12, 13, 32, 160})"

definition is_lower :: "char \<Rightarrow> bool" where
  "is_lower c = (97 \<le> code_unit c \<and> code_unit c \<le> 122)"

definition is_upper :: "char \<Rightarrow> bool" where
  "is_upper c = (65 \<le> code_unit c \<and> code_unit c \<le> 90)"

definition is_digit :: "char \<Rightarrow> bool" where
  "is_digit c = (48 \<le> code_unit c \<and> code_unit c \<le> 57)"

text \<open>\<^verbatim>\<open>\w\<close> of a regular expression without the \<^verbatim>\<open>u\<close> flag: \<^verbatim>\<open>[A-Za-z0-9_]\<close>.\<close>

definition is_word_char :: "char \<Rightarrow> bool" where
  "is_word_char c = (is_lower c \<or> is_upper c \<or> is_digit c \<or> code_unit c = 95)"

text \<open>The small letters that have a capital, and the capitals that have a small letter.\<close>

definition has_capital :: "char \<Rightarrow> bool" where
  "has_capital c =
     (is_lower c \<or> (224 \<le> code_unit c \<and> code_unit c \<le> 254 \<and> code_unit c \<noteq> 247))"

definition has_small :: "char \<Rightarrow> bool" where
  "has_small c =
     (is_upper c \<or> (192 \<le> code_unit c \<and> code_unit c \<le> 222 \<and> code_unit c \<noteq> 215))"

text \<open>
  The upper-case and the lower-case form of one code unit, where that form is one code
  unit: \<^verbatim>\<open>c.toUpperCase()\<close> for a word character \<^verbatim>\<open>c\<close>, and the canonical form that
  a regular expression with the \<^verbatim>\<open>i\<close> flag compares (U+00DF, whose upper-case form is
  two code units, is its own canonical form).
\<close>

definition upper_char :: "char \<Rightarrow> char" where
  "upper_char c = (if has_capital c then char_of (code_unit c - 32) else c)"

definition lower_char :: "char \<Rightarrow> char" where
  "lower_char c = (if has_small c then char_of (code_unit c + 32) else c)"

text \<open>\<^verbatim>\<open>String.prototype.toUpperCase\<close>, \<^verbatim>\<open>toLowerCase\<close>, \<^verbatim>\<open>trim\<close>.\<close>

definition upper_chars :: "char \<Rightarrow> string" where
  "upper_chars c = (if c = CHR 0xDF then ''SS'' else [upper_char c])"

definition toUpperCase :: "string \<Rightarrow> string" where
  "toUpperCase s = concat (map upper_chars s)"

definition toLowerCase :: "string \<Rightarrow> string" where
  "toLowerCase s = map lower_char s"

definition trim :: "string \<Rightarrow> string" where
  "trim s = rev (dropWhile is_white_space (rev (dropWhile is_white_space s)))"

text \<open>\<^verbatim>\<open>s.includes(t)\<close>: \<^verbatim>\<open>t\<close> occurs in \<^verbatim>\<open>s\<close> as a contiguous substring.\<close>

fun includes_str :: "string \<Rightarrow> string \<Rightarrow> bool" where
  "includes_str [] t = (t = [])"
| "includes_str (c # cs) t = (take (length t) (c # cs) = t \<or> includes_str cs t)"

text \<open>\<^verbatim>\<open>s.split(sep)\<close> for a separator of one code unit.\<close>

fun split :: "char \<Rightarrow> string \<Rightarrow> string list" where
  "split sep [] = [Nil]"
| "split sep (c # cs) =
     (if c = sep then [] # split sep cs
      else (case split sep cs of
              [] \<Rightarrow> [c # Nil]
            | w # ws \<Rightarrow> (c # w) # ws))"

text \<open>\<^verbatim>\<open>s.padStart(n, '0')\<close>.\<close>

definition padStart :: "nat \<Rightarrow> char \<Rightarrow> string \<Rightarrow> string" where
  "padStart n c s = replicate (n - length s) c @ s"

section \<open>ECMAScript numbers\<close>

text \<open>
  A Number is an IEEE 754 double: NaN, an infinity, or a finite value, which is a
  rational. The two zeros are identified (the code never tells them apart). Every
  arithmetic operation computes the exact rational result and rounds it to the nearest
  double, ties to even, as IEEE 754 prescribes.
\<close>

datatype jsnum = NaN | PInf | NInf | Fin rat

definition round_half_even :: "rat \<Rightarrow> int" where
  "round_half_even x =
     (let f = \<lfloor>x\<rfloor>; d = x - of_int f
      in if d < 1 / 2 then f else if 1 / 2 < d then f + 1 else if even f then f else f + 1)"

text \<open>\<open>ilog2 x\<close> is \<open>\<lfloor>log\<^sub>2 x\<rfloor>\<close> for a positive rational, computed on integers.\<close>

definition ilog2 :: "rat \<Rightarrow> int" where
  "ilog2 x =
     (if 1 \<le> x then int (floorlog 2 (nat \<lfloor>x\<rfloor>)) - 1
      else - int (floorlog 2 (nat (\<lceil>1 / x\<rceil> - 1))))"

text \<open>
  The spacing of the doubles around \<open>a\<close>: 53 significant bits, and the fixed spacing
  of the subnormal range below \<open>2 powi - 1022\<close>.
\<close>

definition ulp :: "rat \<Rightarrow> rat" where
  "ulp a = 2 powi (max (ilog2 a) (- 1022) - 52)"

definition round_double :: "rat \<Rightarrow> jsnum" where
  "round_double x =
     (if x = 0 then Fin 0
      else
        let a = \<bar>x\<bar>;
            v = of_int (round_half_even (a / ulp a)) * ulp a
        in if 2 powi 1024 \<le> v then (if x < 0 then NInf else PInf)
           else Fin (if x < 0 then - v else v))"

text \<open>
  The operators the code applies to a Number and a literal: \<^verbatim>\<open>x / d\<close> and \<^verbatim>\<open>x % d\<close>
  for a positive literal \<open>d\<close>, \<^verbatim>\<open>x - c\<close>, \<^verbatim>\<open>Math.floor(x)\<close>, the comparisons and
  \<^verbatim>\<open>===\<close>. The remainder takes the sign of the dividend and is exact.
\<close>

definition js_div :: "jsnum \<Rightarrow> rat \<Rightarrow> jsnum" where
  "js_div x d = (case x of Fin q \<Rightarrow> round_double (q / d) | _ \<Rightarrow> x)"

definition js_mod :: "jsnum \<Rightarrow> rat \<Rightarrow> jsnum" where
  "js_mod x d =
     (case x of
        Fin q \<Rightarrow> Fin (q - d * of_int (if 0 \<le> q then \<lfloor>q / d\<rfloor> else \<lceil>q / d\<rceil>))
      | _ \<Rightarrow> NaN)"

definition js_sub :: "jsnum \<Rightarrow> rat \<Rightarrow> jsnum" where
  "js_sub x c = (case x of Fin q \<Rightarrow> round_double (q - c) | _ \<Rightarrow> x)"

definition js_floor :: "jsnum \<Rightarrow> jsnum" where
  "js_floor x = (case x of Fin q \<Rightarrow> Fin (of_int \<lfloor>q\<rfloor>) | _ \<Rightarrow> x)"

definition js_gt :: "jsnum \<Rightarrow> rat \<Rightarrow> bool" where
  "js_gt x c = (case x of Fin q \<Rightarrow> c < q | PInf \<Rightarrow> True | _ \<Rightarrow> False)"

definition js_lt :: "jsnum \<Rightarrow> rat \<Rightarrow> bool" where
  "js_lt x c = (case x of Fin q \<Rightarrow> q < c | NInf \<Rightarrow> True | _ \<Rightarrow> False)"

definition js_ge :: "jsnum \<Rightarrow> rat \<Rightarrow> bool" where
  "js_ge x c = (case x of Fin q \<Rightarrow> c \<le> q | PInf \<Rightarrow> True | _ \<Rightarrow> False)"

definition js_eq :: "jsnum \<Rightarrow> rat \<Rightarrow> bool" where
  "js_eq x c = (x = Fin c)"

text \<open>
  \<^verbatim>\<open>arr[x]\<close> for an array of strings and a Number: the element when \<open>x\<close> is an
  integer index of the array, \<^verbatim>\<open>undefined\<close> (\<open>None\<close>) otherwise. \<open>js_string\<close> is the
  conversion that string concatenation and template literals apply.
\<close>

definition js_index :: "string list \<Rightarrow> jsnum \<Rightarrow> string option" where
  "js_index arr x =
     (case x of
        Fin q \<Rightarrow>
          (if of_int \<lfloor>q\<rfloor> = q \<and> 0 \<le> q \<and> nat \<lfloor>q\<rfloor> < length arr
           then Some (arr ! nat \<lfloor>q\<rfloor>) else None)
      | _ \<Rightarrow> None)"

definition js_string :: "string option \<Rightarrow> string" where
  "js_string v = (case v of None \<Rightarrow> ''undefined'' | Some s \<Rightarrow> s)"

subsection \<open>\<^verbatim>\<open>Number(string)\<close>\<close>

text \<open>
  The StringNumericLiteral grammar: surrounding white space is dropped; the empty string
  is 0; \<^verbatim>\<open>0x\<close>, \<^verbatim>\<open>0o\<close> and \<^verbatim>\<open>0b\<close> introduce unsigned integers in radix 16, 8 and 2;
  otherwise an optional sign is followed by \<^verbatim>\<open>Infinity\<close> or by decimal digits with an
  optional fraction and exponent. Any other string is NaN.
\<close>

definition digit_value :: "char \<Rightarrow> nat" where
  "digit_value c =
     (if is_digit c then code_unit c - 48
      else if 97 \<le> code_unit c \<and> code_unit c \<le> 102 then code_unit c - 87
      else if 65 \<le> code_unit c \<and> code_unit c \<le> 70 then code_unit c - 55
      else 16)"

definition digits_value :: "nat \<Rightarrow> string \<Rightarrow> nat" where
  "digits_value b ds = foldl (\<lambda>a c. b * a + digit_value c) 0 ds"

definition radix_literal :: "nat \<Rightarrow> string \<Rightarrow> jsnum" where
  "radix_literal b ds =
     (if ds \<noteq> [] \<and> list_all (\<lambda>c. digit_value c < b) ds
      then round_double (of_nat (digits_value b ds)) else NaN)"

definition sign_part :: "string \<Rightarrow> int \<times> string" where
  "sign_part s =
     (case s of
        [] \<Rightarrow> (1, [])
      | c # t \<Rightarrow> if c = CHR ''+'' then (1, t) else if c = CHR ''-'' then (- 1, t) else (1, s))"

definition exponent_part :: "string \<Rightarrow> int option" where
  "exponent_part s =
     (case s of
        [] \<Rightarrow> Some 0
      | c # t \<Rightarrow>
          if c = CHR ''e'' \<or> c = CHR ''E'' then
            (let (sg, ds) = sign_part t
             in if ds \<noteq> [] \<and> list_all is_digit ds
                then Some (sg * int (digits_value 10 ds)) else None)
          else None)"

definition unsigned_decimal :: "string \<Rightarrow> rat option" where
  "unsigned_decimal s =
     (let ip = takeWhile is_digit s;
          r = dropWhile is_digit s;
          (fp, r') = (case r of
                        [] \<Rightarrow> ([], [])
                      | c # t \<Rightarrow> if c = CHR ''.''
                                 then (takeWhile is_digit t, dropWhile is_digit t)
                                 else ([], r))
      in if ip = [] \<and> fp = [] then None
         else (case exponent_part r' of
                 None \<Rightarrow> None
               | Some e \<Rightarrow>
                   Some (of_nat (digits_value 10 (ip @ fp)) * 10 powi (e - int (length fp)))))"

definition Number :: "string \<Rightarrow> jsnum" where
  "Number str =
     (let s = trim str
      in if s = [] then Fin 0
         else if take 2 s \<in> {''0x'', ''0X''} then radix_literal 16 (drop 2 s)
         else if take 2 s \<in> {''0o'', ''0O''} then radix_literal 8 (drop 2 s)
         else if take 2 s \<in> {''0b'', ''0B''} then radix_literal 2 (drop 2 s)
         else
           (let (sg, t) = sign_part s
            in if t = ''Infinity'' then (if sg < 0 then NInf else PInf)
               else (case unsigned_decimal t of
                       None \<Rightarrow> NaN
                     | Some v \<Rightarrow> round_double (of_int sg * v))))"

section \<open>The formatting logic of \<^verbatim>\<open>src/index.tsx\<close>\<close>

subsection \<open>\<^verbatim>\<open>numberToWords\<close>\<close>

definition units :: "string list" where
  "units = ['''', ''satu'', ''dua'', ''tiga'', ''empat'', ''lima'', ''enam'', ''tujuh'',
            ''delapan'', ''sembilan'']"

definition teens :: "string list" where
  "teens = [''sepuluh'', ''sebelas'', ''dua belas'', ''tiga belas'', ''empat belas'',
            ''lima belas'', ''enam belas'', ''tujuh belas'', ''delapan belas'',
            ''sembilan belas'']"

definition tens :: "string list" where
  "tens = ['''', '''', ''dua puluh'', ''tiga puluh'', ''empat puluh'', ''lima puluh'',
           ''enam puluh'', ''tujuh puluh'', ''delapan puluh'', ''sembilan puluh'']"

text \<open>
  The two blocks of \<^verbatim>\<open>numberToWords\<close> after the thousands, the hundreds and the
  remainder below one hundred, on the variables \<^verbatim>\<open>words\<close> and \<^verbatim>\<open>num\<close> as the
  block before left them.
\<close>

definition hundreds_block :: "string \<times> jsnum \<Rightarrow> string \<times> jsnum" where
  "hundreds_block = (\<lambda>(words, num).
     if js_gt (js_floor (js_div num 100)) 0 then
       (words @ (if js_eq (js_floor (js_div num 100)) 1 then ''seratus''
                 else js_string (js_index units (js_floor (js_div num 100))) @ '' ratus'')
              @ '' '',
        js_mod num 100)
     else (words, num))"

definition remainder_block :: "string \<times> jsnum \<Rightarrow> string" where
  "remainder_block = (\<lambda>(words, num).
     if js_gt num 0 then
       (if js_lt num 10 then words @ js_string (js_index units num)
        else if js_lt num 20 then words @ js_string (js_index teens (js_sub num 10))
        else words @ js_string (js_index tens (js_floor (js_div num 10)))
                   @ (if js_gt (js_mod num 10) 0
                      then '' '' @ js_string (js_index units (js_mod num 10)) else ''''))
     else words)"

text \<open>
  \<^verbatim>\<open>numberToWords(Infinity)\<close> calls itself on \<^verbatim>\<open>Math.floor(Infinity / 1000)\<close>, which is
  \<^verbatim>\<open>Infinity\<close> again: the call never returns, and the engine throws a RangeError when
  the stack is exhausted. No other argument recurses without end.
\<close>

datatype error = RangeError

function numberToWords :: "jsnum \<Rightarrow> error + string" where
  "numberToWords num =
     (if js_eq num 0 then Inr ''nol''
      else if js_gt (js_floor (js_div num 1000)) 0 then
        (if js_eq (js_floor (js_div num 1000)) 1 then
           Inr (trim (remainder_block (hundreds_block (''seribu'' @ '' '', js_mod num 1000))))
         else if js_floor (js_div num 1000) = PInf then Inl RangeError
         else
           (case numberToWords (js_floor (js_div num 1000)) of
              Inl e \<Rightarrow> Inl e
            | Inr w \<Rightarrow>
                Inr (trim (remainder_block
                             (hundreds_block (w @ '' ribu'' @ '' '', js_mod num 1000))))))
      else Inr (trim (remainder_block (hundreds_block ('''', num)))))"
  by pat_completeness auto

subsection \<open>\<^verbatim>\<open>dateToWords\<close>\<close>

definition months :: "string list" where
  "months = ['''', ''Januari'', ''Februari'', ''Maret'', ''April'', ''Mei'', ''Juni'', ''Juli'',
             ''Agustus'', ''September'', ''Oktober'', ''November'', ''Desember'']"

text \<open>
  Destructuring \<^verbatim>\<open>[day, month, year]\<close> binds \<^verbatim>\<open>undefined\<close> where the array is too
  short. \<^verbatim>\<open>undefined\<close> converts to NaN in every arithmetic operation and comparison,
  is not \<^verbatim>\<open>=== 0\<close>, and is no index of an array, so it is bound as NaN here.
\<close>

definition element :: "jsnum list \<Rightarrow> nat \<Rightarrow> jsnum" where
  "element xs i = (if i < length xs then xs ! i else NaN)"

text \<open>
  The \<^verbatim>\<open>catch\<close> clause returns \<^verbatim>\<open>""\<close> for whatever the block throws; the year is
  spelled before the day.
\<close>

definition dateToWords :: "string \<Rightarrow> string" where
  "dateToWords dateStr =
     (let parts = map Number (split CHR ''-'' dateStr);
          day = element parts 0; month = element parts 1; year = element parts 2
      in case numberToWords year of
           Inl e \<Rightarrow> ''''
         | Inr w \<Rightarrow>
             (let yearInWords = (if js_ge year 2000 then ''tahun '' @ w else w)
              in case numberToWords day of
                   Inl e \<Rightarrow> ''''
                 | Inr dw \<Rightarrow> dw @ '' '' @ js_string (js_index months month) @ '' '' @ yearInWords))"

subsection \<open>\<^verbatim>\<open>toTitleCase\<close>\<close>

text \<open>
  \<^verbatim>\<open>replace(/\b\w/g, char => char.toUpperCase())\<close>: a word character is at a word
  boundary when it starts the string or follows a character that is not a word
  character. The flag says whether the preceding character is a word character.
\<close>

fun upcase_word_starts :: "bool \<Rightarrow> string \<Rightarrow> string" where
  "upcase_word_starts prev [] = []"
| "upcase_word_starts prev (c # cs) =
     (if is_word_char c \<and> \<not> prev then upper_char c else c)
       # upcase_word_starts (is_word_char c) cs"

definition toTitleCase :: "string \<Rightarrow> string" where
  "toTitleCase str = (if str = [] then [] else upcase_word_starts False (toLowerCase str))"

subsection \<open>\<^verbatim>\<open>formatParagraph\<close>\<close>

text \<open>
  The interface \<^verbatim>\<open>KtpData\<close>: fourteen strings, and two optional strings that may be
  absent (\<^verbatim>\<open>undefined\<close>).
\<close>

record KtpData =
  nik :: string
  nama :: string
  tempatLahir :: string
  tanggalLahir :: string
  jenisKelamin :: string
  alamat :: string
  rt :: string
  rw :: string
  kelDesa :: string
  kecamatan :: string
  kota :: string
  statusPerkawinan :: string
  pekerjaan :: string
  kewarganegaraan :: string
  gelarDepanExpanded :: "string option"
  gelarBelakangExpanded :: "string option"

text \<open>
  \<^verbatim>\<open>replace(/haji/ig, 'Hajjah')\<close>: the matches are found from left to right, each
  search starting where the previous match ended; a character matches a pattern
  character when their canonical forms agree.
\<close>

fun replace_haji :: "string \<Rightarrow> string" where
  "replace_haji [] = []"
| "replace_haji (c # cs) =
     (if map upper_char (take 4 (c # cs)) = map upper_char ''haji''
      then ''Hajjah'' @ replace_haji (drop 3 cs)
      else c # replace_haji cs)"

text \<open>The local variables of \<^verbatim>\<open>formatParagraph\<close>, each as a function of the record.\<close>

definition salutation :: "KtpData \<Rightarrow> string" where
  "salutation data =
     (let gender = toUpperCase (jenisKelamin data);
          maritalStatus = toUpperCase (statusPerkawinan data)
      in if includes_str gender ''LAKI'' then ''Tuan''
         else if maritalStatus = ''BELUM KAWIN'' then ''Nona'' else ''Nyonya'')"

definition gelarDepan :: "KtpData \<Rightarrow> string" where
  "gelarDepan data =
     (let gender = toUpperCase (jenisKelamin data);
          g = trim (case gelarDepanExpanded data of None \<Rightarrow> '''' | Some s \<Rightarrow> s)
      in if includes_str (toLowerCase g) ''haji'' \<and> includes_str gender ''PEREMPUAN''
         then replace_haji g else g)"

definition formattedName :: "KtpData \<Rightarrow> string" where
  "formattedName data =
     (if gelarDepan data \<noteq> [] then toTitleCase (gelarDepan data) @ '' '' else '''')
     @ toUpperCase (nama data)
     @ (case gelarBelakangExpanded data of
          None \<Rightarrow> ''''
        | Some s \<Rightarrow> if s \<noteq> [] then '', '' @ toTitleCase s else '''')"

definition citizenship :: "KtpData \<Rightarrow> string" where
  "citizenship data =
     (if trim (toUpperCase (kewarganegaraan data)) = ''WNI'' then ''Warga Negara Indonesia''
      else kewarganegaraan data)"

definition fullAddress :: "KtpData \<Rightarrow> string" where
  "fullAddress data =
     ''bertempat tinggal di '' @ toTitleCase (kota data) @ '', '' @ alamat data
     @ '', Rukun Tetangga '' @ padStart 3 CHR ''0'' (rt data)
     @ '', Rukun Warga '' @ padStart 3 CHR ''0'' (rw data)
     @ '', Kelurahan '' @ toTitleCase (kelDesa data)
     @ '', Kecamatan '' @ toTitleCase (kecamatan data)"

definition incomplete_message :: string where
  "incomplete_message =
     ''Data tidak lengkap dari salah satu KTP. Pratinjau gambar mungkin tidak jelas.''"

definition formatParagraph :: "KtpData \<Rightarrow> string" where
  "formatParagraph data =
     (if nik data = [] then incomplete_message
      else
        ''<strong>'' @ salutation data @ '' '' @ formattedName data @ ''</strong>''
        @ '', dilahirkan di '' @ toTitleCase (tempatLahir data)
        @ '', tanggal '' @ tanggalLahir data @ '' ('' @ dateToWords (tanggalLahir data) @ '')''
        @ '', '' @ toTitleCase (pekerjaan data)
        @ '', '' @ fullAddress data
        @ '', pemegang Kartu Tanda Penduduk dengan Nomor Induk Kependudukan '' @ nik data
        @ '', '' @ citizenship data @ ''.'')"

section \<open>Notions of the specification\<close>

text \<open>
  What the specification calls case-insensitive, stated without the code's \<^verbatim>\<open>toUpperCase\<close>:
  two strings are equal up to case when their lower-case forms agree, and \<open>t\<close> occurs in
  \<open>s\<close> up to case when some window of \<open>s\<close> is equal to \<open>t\<close> up to case.
\<close>

definition ci_equal :: "string \<Rightarrow> string \<Rightarrow> bool" where
  "ci_equal s t = (toLowerCase s = toLowerCase t)"

definition ci_occurs_at :: "string \<Rightarrow> string \<Rightarrow> nat \<Rightarrow> bool" where
  "ci_occurs_at t s i = (i + length t \<le> length s \<and> ci_equal (take (length t) (drop i s)) t)"

definition ci_contains :: "string \<Rightarrow> string \<Rightarrow> bool" where
  "ci_contains s t = (\<exists>i \<in> {0..length s}. ci_occurs_at t s i)"

text \<open>
  Replacing every occurrence of \<open>t\<close> up to case by \<open>r\<close>: each index that starts an
  occurrence contributes \<open>r\<close>, each index inside an occurrence that starts before it
  contributes nothing, and every other index contributes its own character.
\<close>

definition ci_covered :: "string \<Rightarrow> string \<Rightarrow> nat \<Rightarrow> bool" where
  "ci_covered t s i = (\<exists>j \<in> {i + 1 - length t..<i}. ci_occurs_at t s j)"

definition replace_every :: "string \<Rightarrow> string \<Rightarrow> string \<Rightarrow> string" where
  "replace_every t r s =
     concat (map (\<lambda>i. if ci_occurs_at t s i then r
                       else if ci_covered t s i then [] else [s ! i])
                 [0..<length s])"

text \<open>
  The number speller as the specification words it: zero is \<^verbatim>\<open>nol\<close>; otherwise the
  thousands, the hundreds and the remainder below one hundred each give a segment, a
  band of value zero gives none, and the segments are joined by single spaces.
\<close>

definition remainder_words :: "nat \<Rightarrow> string" where
  "remainder_words r =
     (if r = 0 then []
      else if r < 10 then units ! r
      else if r < 20 then teens ! (r - 10)
      else tens ! (r div 10) @ (if r mod 10 = 0 then [] else '' '' @ units ! (r mod 10)))"

definition hundreds_words :: "nat \<Rightarrow> string" where
  "hundreds_words h =
     (if h = 0 then [] else if h = 1 then ''seratus'' else units ! h @ '' ratus'')"

fun join_words :: "string list \<Rightarrow> string" where
  "join_words [] = []"
| "join_words [w] = w"
| "join_words (w # ws) = w @ '' '' @ join_words ws"

function spec_spell :: "nat \<Rightarrow> string" where
  "spec_spell n =
     (if n = 0 then ''nol''
      else join_words (filter (\<lambda>w. w \<noteq> [])
             [if n div 1000 = 0 then []
              else if n div 1000 = 1 then ''seribu''
              else spec_spell (n div 1000) @ '' ribu'',
              hundreds_words (n mod 1000 div 100),
              remainder_words (n mod 100)]))"
  by pat_completeness auto
termination
  by (relation "measure (\<lambda>n. n)") auto

text \<open>
  A string is clean when it is not empty and neither starts nor ends with white space.
\<close>

definition clean :: "string \<Rightarrow> bool" where
  "clean w = (w \<noteq> [] \<and> \<not> is_white_space (hd w) \<and> \<not> is_white_space (last w))"

text \<open>
  A well-formed date \<^verbatim>\<open>DD-MM-YYYY\<close>: ten characters, digits but for the two hyphens.
  Its day, month and year are the decimal values of the three groups of digits.
\<close>

definition well_formed_date :: "string \<Rightarrow> bool" where
  "well_formed_date s =
     (length s = 10 \<and> s ! 2 = CHR ''-'' \<and> s ! 5 = CHR ''-''
      \<and> list_all is_digit (take 2 s) \<and> list_all is_digit (take 2 (drop 3 s))
      \<and> list_all is_digit (drop 6 s))"

definition day_of :: "string \<Rightarrow> nat" where
  "day_of s = digits_value 10 (take 2 s)"

definition month_of :: "string \<Rightarrow> nat" where
  "month_of s = digits_value 10 (take 2 (drop 3 s))"

definition year_of :: "string \<Rightarrow> nat" where
  "year_of s = digits_value 10 (drop 6 s)"

section \<open>Example records\<close>

definition example_tuan :: KtpData where
  "example_tuan =
     \<lparr>nik = ''3273011708450001'', nama = ''Budi Santoso'', tempatLahir = ''BANDUNG'',
      tanggalLahir = ''17-08-1945'', jenisKelamin = ''Laki-Laki'',
      alamat = ''Jalan Merdeka Nomor 1'', rt = ''5'', rw = ''12'', kelDesa = ''CICENDO'',
      kecamatan = ''ANDIR'', kota = ''KOTA BANDUNG'', statusPerkawinan = ''BELUM KAWIN'',
      pekerjaan = ''GURU'', kewarganegaraan = ''WNI'',
      gelarDepanExpanded = Some ''  '', gelarBelakangExpanded = Some '' ''\<rparr>"

definition example_hajjah :: KtpData where
  "example_hajjah =
     \<lparr>nik = ''3273014101500002'', nama = ''Siti Aminah'', tempatLahir = ''GARUT'',
      tanggalLahir = ''01-01-2000'', jenisKelamin = ''Perempuan'',
      alamat = ''Jalan Asia Afrika Nomor 8'', rt = ''001'', rw = ''3'', kelDesa = ''BRAGA'',
      kecamatan = ''SUMUR BANDUNG'', kota = ''KOTA BANDUNG'', statusPerkawinan = ''KAWIN'',
      pekerjaan = ''WIRASWASTA'', kewarganegaraan = ''WNI'',
      gelarDepanExpanded = Some '' haji HAJI '', gelarBelakangExpanded = None\<rparr>"

section \<open>Rounding to a double\<close>

text \<open>
  Facts about \<open>round_double\<close>: the error of rounding, exactness on the integers below
  \<open>2 ^ 53\<close>, and exactness of \<^verbatim>\<open>Math.floor(n / d)\<close> on those integers.
\<close>

lemma rhe_err: "\<bar>of_int (round_half_even x) - x\<bar> \<le> 1 / 2"
  unfolding round_half_even_def Let_def by (auto simp: abs_if) linarith+

lemma rhe_int: "round_half_even (of_int k) = k"
  unfolding round_half_even_def Let_def by simp


lemma ilog2_le: assumes "0 < x" shows "2 powi (ilog2 x) \<le> x"
proof (cases "1 \<le> x")
  case True
  define n where "n = nat \<lfloor>x\<rfloor>"
  have n: "0 < n" using True by (simp add: n_def)
  have "2 ^ (floorlog 2 n - 1) \<le> n" using floorlog_bounds[of n 2] n by simp
  then have "(2::rat) ^ (floorlog 2 n - 1) \<le> of_nat n"
    by (metis of_nat_le_iff of_nat_numeral of_nat_power)
  also have "(of_nat n :: rat) \<le> x" using True by (simp add: n_def)
  finally have a: "(2::rat) ^ (floorlog 2 n - 1) \<le> x" .
  have "0 < floorlog 2 n" using n floorlog_eq_zero_iff[of 2 n] by auto
  then have b: "int (floorlog 2 n) - 1 = int (floorlog 2 n - 1)" by simp
  have c: "ilog2 x = int (floorlog 2 n) - 1" unfolding ilog2_def n_def using True by simp
  have "2 powi (ilog2 x) = (2::rat) ^ (floorlog 2 n - 1)" unfolding c b by (rule power_int_of_nat)
  then show ?thesis using a by (simp only:)
next
  case False
  define m where "m = nat (\<lceil>1 / x\<rceil> - 1)"
  have "1 < 1 / x" using False assms by simp
  then have N: "2 \<le> \<lceil>1 / x\<rceil>" by linarith
  then have m: "0 < m" by (simp add: m_def)
  have "m < 2 ^ floorlog 2 m" using floorlog_bounds[of m 2] m by simp
  then have "int m < 2 ^ floorlog 2 m"
    by (metis of_nat_less_iff of_nat_numeral of_nat_power)
  moreover have "0 \<le> \<lceil>1 / x\<rceil> - 1" using N by linarith
  then have "int m = \<lceil>1 / x\<rceil> - 1" unfolding m_def by (rule nat_0_le)
  ultimately have "\<lceil>1 / x\<rceil> \<le> 2 ^ floorlog 2 m" by linarith
  then have "1 / x \<le> of_int (2 ^ floorlog 2 m)" by (simp add: ceiling_le_iff)
  then have "1 / x \<le> 2 ^ floorlog 2 m" by simp
  then have "1 \<le> x * 2 ^ floorlog 2 m" using assms by (simp add: field_simps)
  then have "1 / 2 ^ floorlog 2 m \<le> x" by (simp add: field_simps)
  moreover have "ilog2 x = - int (floorlog 2 m)" using False by (simp add: ilog2_def m_def)
  ultimately show ?thesis by (simp add: power_int_minus field_simps)
qed


lemma ilog2_nonneg: "1 \<le> x \<Longrightarrow> 0 \<le> ilog2 x"
proof -
  assume a: "1 \<le> x"
  then have "0 < nat \<lfloor>x\<rfloor>" by simp
  then have "0 < floorlog 2 (nat \<lfloor>x\<rfloor>)" using floorlog_eq_zero_iff[of 2 "nat \<lfloor>x\<rfloor>"] by auto
  then show ?thesis unfolding ilog2_def using a by simp
qed

lemma ilog2_le_52: assumes "1 \<le> x" "x < 2 ^ 53" shows "ilog2 x \<le> 52"
proof -
  have "\<lfloor>x\<rfloor> < 2 ^ 53" using assms(2) by (simp add: floor_less_iff)
  then have "nat \<lfloor>x\<rfloor> < 2 ^ 53" using assms(1) by (simp add: nat_less_iff)
  then have "floorlog 2 (nat \<lfloor>x\<rfloor>) \<le> 53" by (intro floorlog_leI) simp_all
  then show ?thesis unfolding ilog2_def using assms(1) by simp
qed

lemma rhe_nonneg: "0 \<le> x \<Longrightarrow> 0 \<le> round_half_even x"
  unfolding round_half_even_def Let_def by auto

lemma ulp_pos: "0 < ulp a"
  unfolding ulp_def by simp

lemma ulp_le: assumes "0 < a" shows "ulp a / 2 \<le> max (a / 2 ^ 53) (1 / 2 ^ 1075)"
proof (cases "- 1022 \<le> ilog2 a")
  case True
  then have "ulp a = 2 powi (ilog2 a) * 2 powi (- 52)"
    unfolding ulp_def by (simp add: max_def power_int_diff power_int_minus field_simps)
  also have "\<dots> \<le> a * 2 powi (- 52)" using ilog2_le[OF assms] by simp
  finally have "ulp a / 2 \<le> a / 2 ^ 53" by (simp add: power_int_minus field_simps)
  then show ?thesis by simp
next
  case False
  then have "ulp a = 2 powi (- 1074)" unfolding ulp_def by (simp add: max_def)
  then have "ulp a / 2 = 1 / 2 ^ 1075" by (simp add: power_int_minus field_simps)
  then show ?thesis by simp
qed

lemma round_double_pos:
  assumes "0 < x"
  obtains v where "round_double x = (if 2 powi 1024 \<le> v then PInf else Fin v)"
    and "\<bar>v - x\<bar> \<le> max (x / 2 ^ 53) (1 / 2 ^ 1075)"
    and "v = of_int (round_half_even (x / ulp x)) * ulp x"
proof -
  define v where "v = of_int (round_half_even (x / ulp x)) * ulp x"
  have 1: "round_double x = (if 2 powi 1024 \<le> v then PInf else Fin v)"
    using assms unfolding round_double_def v_def Let_def by simp
  have "\<bar>of_int (round_half_even (x / ulp x)) - x / ulp x\<bar> \<le> 1 / 2" by (rule rhe_err)
  then have "\<bar>of_int (round_half_even (x / ulp x)) - x / ulp x\<bar> * ulp x \<le> 1 / 2 * ulp x"
    using ulp_pos[of x] by (simp add: mult_right_mono)
  moreover have "\<bar>of_int (round_half_even (x / ulp x)) - x / ulp x\<bar> * ulp x = \<bar>v - x\<bar>"
  proof -
    have "(of_int (round_half_even (x / ulp x)) - x / ulp x) * ulp x = v - x"
      using ulp_pos[of x] unfolding v_def by (simp add: field_simps)
    then have "\<bar>v - x\<bar> = \<bar>of_int (round_half_even (x / ulp x)) - x / ulp x\<bar> * \<bar>ulp x\<bar>"
      by (simp only: abs_mult[symmetric])
    then show ?thesis using ulp_pos[of x] by (simp only: abs_of_pos)
  qed
  ultimately have "\<bar>v - x\<bar> \<le> ulp x / 2" by simp
  then have 2: "\<bar>v - x\<bar> \<le> max (x / 2 ^ 53) (1 / 2 ^ 1075)" using ulp_le[OF assms] by linarith
  show ?thesis using that[OF 1 2 v_def] .
qed

lemma round_double_neg:
  assumes "x < 0"
  shows "round_double x = NInf \<or> (\<exists>v. round_double x = Fin v \<and> v \<le> 0)"
proof -
  have "0 \<le> of_int (round_half_even (\<bar>x\<bar> / ulp \<bar>x\<bar>)) * ulp \<bar>x\<bar>"
    using ulp_pos[of "\<bar>x\<bar>"] rhe_nonneg[of "\<bar>x\<bar> / ulp \<bar>x\<bar>"] by simp
  then show ?thesis using assms unfolding round_double_def Let_def by auto
qed

lemma round_double_int:
  assumes "1 \<le> k" "k < 2 ^ 53"
  shows "round_double (of_int k) = Fin (of_int k)"
proof -
  let ?x = "of_int k :: rat"
  have x: "1 \<le> ?x" "?x < 2 ^ 53" using assms by (simp_all flip: of_int_less_iff of_int_le_iff add: of_int_power)
  obtain v where v: "round_double ?x = (if 2 powi 1024 \<le> v then PInf else Fin v)"
    "v = of_int (round_half_even (?x / ulp ?x)) * ulp ?x"
    using round_double_pos[of ?x] x by (metis less_le_trans zero_less_one)
  have e: "0 \<le> ilog2 ?x" "ilog2 ?x \<le> 52" using ilog2_nonneg[OF x(1)] ilog2_le_52[OF x] by auto
  define j where "j = nat (52 - ilog2 ?x)"
  have u: "ulp ?x = 1 / 2 ^ j"
  proof -
    have "max (ilog2 ?x) (- 1022) - 52 = - int j" using e by (simp add: j_def max_def)
    then have "ulp ?x = 2 powi (- int j)" by (simp only: ulp_def)
    also have "\<dots> = 1 / 2 ^ j" by (simp add: power_int_minus divide_inverse)
    finally show ?thesis .
  qed
  have "?x / ulp ?x = of_int (k * 2 ^ j)" unfolding u by simp
  then have "round_half_even (?x / ulp ?x) = k * 2 ^ j" using rhe_int by metis
  then have "v = ?x" unfolding v(2) u by simp
  moreover have "\<not> 2 powi 1024 \<le> ?x"
  proof -
    have "?x < 2 ^ 1024" using x(2) by (rule less_trans) simp
    then show ?thesis by simp
  qed
  ultimately show ?thesis using v(1) by simp
qed


lemma int_div_facts:
  fixes n d :: int
  assumes "0 \<le> n" "0 < d"
  shows "0 \<le> n div d" "n div d \<le> n" "0 \<le> n mod d" "n mod d < d"
proof -
  show "0 \<le> n div d" using assms by (simp add: pos_imp_zdiv_nonneg_iff)
  show "0 \<le> n mod d" "n mod d < d" using assms by simp_all
  have "1 * (n div d) \<le> d * (n div d)"
    using assms \<open>0 \<le> n div d\<close> by (intro mult_right_mono) simp_all
  also have "\<dots> \<le> n" using \<open>0 \<le> n mod d\<close> mult_div_mod_eq[of d n] by linarith
  finally show "n div d \<le> n" by simp
qed

lemma round_double_div_floor:
  assumes "0 \<le> n" "n < 2 ^ 53" "0 < d" "d \<le> 1000"
  shows "\<exists>v. round_double (of_int n / of_int d) = Fin v \<and> \<lfloor>v\<rfloor> = n div d"
proof -
  define k where "k = n div d"
  define j where "j = n mod d"
  define r :: rat where "r = of_int n / of_int d"
  note f = int_div_facts[OF assms(1) assms(3), folded k_def j_def]
  have n: "n = k * d + j" unfolding k_def j_def by simp
  have dpos: "(0::rat) < of_int d" using assms(3) by simp
  have "of_int n = (of_int k * of_int d + of_int j :: rat)" unfolding n by simp
  then have r: "r = of_int k + of_int j / of_int d"
    unfolding r_def using dpos by (simp add: field_simps)
  have klt: "k < 2 ^ 53" using f(2) assms(2) by linarith
  show ?thesis
  proof (cases "j = 0")
    case True
    then have x: "r = of_int k" using r by simp
    show ?thesis
    proof (cases "k = 0")
      case True
      then show ?thesis unfolding r_def[symmetric] k_def[symmetric] x by (simp add: round_double_def)
    next
      case False
      then have "1 \<le> k" using f(1) by linarith
      then show ?thesis unfolding r_def[symmetric] k_def[symmetric] x
        using round_double_int[OF _ klt] by simp
    qed
  next
    case False
    then have j: "1 \<le> j" "j \<le> d - 1" using f(3,4) by linarith+
    have "(1::rat) \<le> of_int j" using j(1) by simp
    then have "1 / of_int d \<le> (of_int j / of_int d :: rat)"
      using dpos by (simp only: divide_right_mono less_imp_le)
    then have lo: "of_int k + 1 / of_int d \<le> r" unfolding r by linarith
    have "of_int j \<le> (of_int d - 1 :: rat)" using j(2) by (metis of_int_le_iff of_int_diff of_int_1)
    then have "of_int j / (of_int d :: rat) \<le> (of_int d - 1) / of_int d"
      using dpos by (simp only: divide_right_mono less_imp_le)
    moreover have "(of_int d - 1) / of_int d = 1 - 1 / (of_int d :: rat)"
      using dpos by (simp add: diff_divide_distrib)
    ultimately have hi: "r \<le> of_int k + 1 - 1 / of_int d" unfolding r by linarith
    have inv: "0 < 1 / (of_int d :: rat)" using dpos by simp
    have "(0::rat) \<le> of_int k" using f(1) by simp
    then have rpos: "0 < r" using lo inv by linarith
    have "of_int n < (2 ^ 53 :: rat)" using assms(2) by (metis of_int_less_iff of_int_numeral of_int_power)
    then have "r < 2 ^ 53 / of_int d" unfolding r_def using dpos by (simp only: divide_strict_right_mono)
    then have d1: "r / 2 ^ 53 < 1 / of_int d" by (simp add: field_simps)
    have "(of_int d :: rat) \<le> 1000" using assms(4) by (metis of_int_le_iff of_int_numeral)
    then have "(of_int d :: rat) < 2 ^ 1075" by (rule le_less_trans) simp
    then have d2: "1 / 2 ^ 1075 < 1 / (of_int d :: rat)" using dpos by (simp only: divide_strict_left_mono zero_less_one mult_pos_pos zero_less_power zero_less_numeral)
    obtain v where v: "round_double r = (if 2 powi 1024 \<le> v then PInf else Fin v)"
      "\<bar>v - r\<bar> \<le> max (r / 2 ^ 53) (1 / 2 ^ 1075)"
      using round_double_pos[OF rpos] by metis
    have "max (r / 2 ^ 53) (1 / 2 ^ 1075) < 1 / of_int d" using d1 d2 by (simp only: max_less_iff_conj)
    then have "\<bar>v - r\<bar> < 1 / of_int d" using v(2) by (rule le_less_trans[rotated])
    then have b: "of_int k < v" "v < of_int k + 1" using lo hi by linarith+
    then have fl: "\<lfloor>v\<rfloor> = k" by linarith
    have "k + 1 \<le> 2 ^ 53" using klt by linarith
    then have "(of_int (k + 1) :: rat) \<le> 2 ^ 53" by (metis of_int_le_iff of_int_numeral of_int_power)
    also have "\<dots> < (2 ^ 1024 :: rat)" by simp
    finally have "v < 2 ^ 1024" using b(2) by simp
    then have "\<not> 2 powi 1024 \<le> v" by simp
    then show ?thesis using v(1) fl unfolding r_def k_def by simp
  qed
qed

lemma js_floor_div_int:
  assumes "0 \<le> n" "n < 2 ^ 53" "0 < d" "d \<le> 1000"
  shows "js_floor (js_div (Fin (of_int n)) (of_int d)) = Fin (of_int (n div d))"
  using round_double_div_floor[OF assms] unfolding js_floor_def js_div_def by auto

lemma round_double_div_less:
  assumes "round_double (q / 1000) = Fin v" "2 \<le> \<lfloor>v\<rfloor>"
  shows "\<lfloor>v\<rfloor> < \<lfloor>q\<rfloor>"
proof -
  define r where "r = q / 1000"
  have rpos: "0 < r"
  proof (rule ccontr)
    assume "\<not> 0 < r"
    then consider "r = 0" | "r < 0" by linarith
    then show False
    proof cases
      case 1 then show ?thesis using assms unfolding r_def[symmetric] by (simp add: round_double_def)
    next
      case 2 then show ?thesis using assms round_double_neg[of r] unfolding r_def[symmetric] by auto
    qed
  qed
  obtain w where w: "round_double r = (if 2 powi 1024 \<le> w then PInf else Fin w)"
    "\<bar>w - r\<bar> \<le> max (r / 2 ^ 53) (1 / 2 ^ 1075)"
    using round_double_pos[OF rpos] by metis
  have vw: "v = w" using assms(1) w(1) unfolding r_def[symmetric] by (simp split: if_splits)
  have "2 \<le> v" using assms(2) by linarith
  have "(1 / 2 ^ 1075 :: rat) \<le> 1" by simp
  moreover have "r / 2 ^ 53 \<le> r" using rpos by (simp add: field_simps)
  ultimately have "max (r / 2 ^ 53) (1 / 2 ^ 1075) \<le> max r 1" by (simp only: max.mono)
  then have "\<bar>w - r\<bar> \<le> max r 1" using w(2) by (rule order_trans[rotated])
  then have "v \<le> r + max r 1" unfolding vw by linarith
  then have "1 \<le> r" using \<open>2 \<le> v\<close> by linarith
  then have "v \<le> 2 * r" using \<open>v \<le> r + max r 1\<close> by linarith
  then have "v \<le> q / 500" unfolding r_def by simp
  moreover have "1000 \<le> q" using \<open>1 \<le> r\<close> unfolding r_def by simp
  ultimately have "v < q - 1" by (simp add: field_simps)
  then show ?thesis by linarith
qed

text \<open>The recursion of \<^verbatim>\<open>numberToWords\<close> ends: a finite argument shrinks.\<close>

termination numberToWords
proof (relation "measure (\<lambda>x. case x of Fin q \<Rightarrow> nat \<lfloor>q\<rfloor> | _ \<Rightarrow> 0)")
  show "wf (measure (\<lambda>x. case x of Fin q \<Rightarrow> nat \<lfloor>q\<rfloor> | _ \<Rightarrow> 0))" by simp
next
  fix num
  assume a: "js_gt (js_floor (js_div num 1000)) 0"
    "\<not> js_eq (js_floor (js_div num 1000)) 1"
    "js_floor (js_div num 1000) \<noteq> PInf"
  from a(1,3) obtain q where q: "num = Fin q"
    by (cases num) (simp_all add: js_gt_def js_floor_def js_div_def)
  from a(1,3) obtain v where v: "round_double (q / 1000) = Fin v"
    unfolding q by (cases "round_double (q / 1000)") (simp_all add: js_gt_def js_floor_def js_div_def)
  have t: "js_floor (js_div num 1000) = Fin (of_int \<lfloor>v\<rfloor>)"
    unfolding q by (simp add: js_floor_def js_div_def v)
  have "0 < \<lfloor>v\<rfloor>" "\<lfloor>v\<rfloor> \<noteq> 1" using a(1,2) unfolding t by (simp_all add: js_gt_def js_eq_def)
  then have "2 \<le> \<lfloor>v\<rfloor>" by linarith
  then have "\<lfloor>v\<rfloor> < \<lfloor>q\<rfloor>" using round_double_div_less[OF v] by simp
  then have "nat \<lfloor>v\<rfloor> < nat \<lfloor>q\<rfloor>" using \<open>2 \<le> \<lfloor>v\<rfloor>\<close> by linarith
  then show "(js_floor (js_div num 1000), num)
      \<in> measure (\<lambda>x. case x of Fin q \<Rightarrow> nat \<lfloor>q\<rfloor> | _ \<Rightarrow> 0)"
    by (simp add: t[unfolded q] q)
qed

declare numberToWords.simps [simp del]

section \<open>Numbers that are natural numbers\<close>

text \<open>
  On the natural numbers below \<open>2 ^ 53\<close> the operators of the code compute the
  integer operations exactly.
\<close>

lemmas js_defs = js_eq_def js_gt_def js_lt_def js_ge_def js_floor_def js_div_def js_mod_def
  js_sub_def js_index_def js_string_def

lemma js_floor_div_nat:
  assumes "n < 2 ^ 53" "0 < d" "d \<le> 1000"
  shows "js_floor (js_div (Fin (of_nat n)) (of_nat d)) = Fin (of_nat (n div d))"
proof -
  have "int n < 2 ^ 53" using assms(1) by (metis of_nat_less_iff of_nat_numeral of_nat_power)
  then have "js_floor (js_div (Fin (of_int (int n))) (of_int (int d)))
      = Fin (of_int (int n div int d))"
    using assms by (intro js_floor_div_int) simp_all
  moreover have "(of_int (int n div int d) :: rat) = of_nat (n div d)"
    by (metis of_int_of_nat_eq zdiv_int)
  ultimately show ?thesis by simp
qed

lemma js_floor_div_consts:
  assumes "n < 2 ^ 53"
  shows "js_floor (js_div (Fin (of_nat n)) 1000) = Fin (of_nat (n div 1000))"
    and "js_floor (js_div (Fin (of_nat n)) 100) = Fin (of_nat (n div 100))"
    and "js_floor (js_div (Fin (of_nat n)) 10) = Fin (of_nat (n div 10))"
  using js_floor_div_nat[OF assms, of 1000] js_floor_div_nat[OF assms, of 100]
    js_floor_div_nat[OF assms, of 10] by simp_all

lemma js_mod_nat:
  assumes "0 < d"
  shows "js_mod (Fin (of_nat n)) (of_nat d) = Fin (of_nat (n mod d))"
proof -
  have "\<lfloor>(of_nat n :: rat) / of_nat d\<rfloor> = int (n div d)"
    by (metis floor_divide_of_nat_eq)
  then have "(of_nat n :: rat) - of_nat d * of_int \<lfloor>(of_nat n :: rat) / of_nat d\<rfloor>
      = of_nat n - of_nat (d * (n div d))" by simp
  also have "\<dots> = of_nat (n - d * (n div d))" by (simp add: of_nat_diff)
  also have "n - d * (n div d) = n mod d" by (simp add: minus_mult_div_eq_mod)
  finally show ?thesis unfolding js_mod_def by simp
qed

lemma js_mod_consts:
  shows "js_mod (Fin (of_nat n)) 1000 = Fin (of_nat (n mod 1000))"
    and "js_mod (Fin (of_nat n)) 100 = Fin (of_nat (n mod 100))"
    and "js_mod (Fin (of_nat n)) 10 = Fin (of_nat (n mod 10))"
  using js_mod_nat[of 1000 n] js_mod_nat[of 100 n] js_mod_nat[of 10 n] by simp_all

lemma round_double_nat:
  assumes "n < 2 ^ 53"
  shows "round_double (of_nat n) = Fin (of_nat n)"
proof (cases "n = 0")
  case True
  then show ?thesis by (simp add: round_double_def)
next
  case False
  have "int n < 2 ^ 53" using assms by (metis of_nat_less_iff of_nat_numeral of_nat_power)
  then have "round_double (of_int (int n)) = Fin (of_int (int n))"
    using False by (intro round_double_int) simp_all
  then show ?thesis by simp
qed

lemma js_sub_10:
  assumes "10 \<le> n" "n < 2 ^ 53"
  shows "js_sub (Fin (of_nat n)) 10 = Fin (of_nat (n - 10))"
proof -
  have "n - 10 < 2 ^ 53" using assms(2) by simp
  then have "round_double (of_nat (n - 10)) = Fin (of_nat (n - 10))" by (rule round_double_nat)
  moreover have "(of_nat (n - 10) :: rat) = of_nat n - 10" using assms(1) by (simp add: of_nat_diff)
  ultimately show ?thesis unfolding js_sub_def by simp
qed

lemma js_compare_nat:
  shows "js_eq (Fin (of_nat n)) 0 = (n = 0)"
    and "js_eq (Fin (of_nat n)) 1 = (n = 1)"
    and "js_gt (Fin (of_nat n)) 0 = (0 < n)"
    and "js_lt (Fin (of_nat n)) 10 = (n < 10)"
    and "js_lt (Fin (of_nat n)) 20 = (n < 20)"
    and "js_ge (Fin (of_nat n)) 2000 = (2000 \<le> n)"
proof -
  show "js_eq (Fin (of_nat n)) 0 = (n = 0)" by (simp add: js_eq_def)
  show "js_eq (Fin (of_nat n)) 1 = (n = 1)" by (simp add: js_eq_def)
  show "js_gt (Fin (of_nat n)) 0 = (0 < n)" by (simp add: js_gt_def)
  have "(of_nat n :: rat) < of_nat 10 \<longleftrightarrow> n < 10" by (rule of_nat_less_iff)
  then show "js_lt (Fin (of_nat n)) 10 = (n < 10)" by (simp add: js_lt_def)
  have "(of_nat n :: rat) < of_nat 20 \<longleftrightarrow> n < 20" by (rule of_nat_less_iff)
  then show "js_lt (Fin (of_nat n)) 20 = (n < 20)" by (simp add: js_lt_def)
  have "(of_nat 2000 :: rat) \<le> of_nat n \<longleftrightarrow> 2000 \<le> n" by (rule of_nat_le_iff)
  then show "js_ge (Fin (of_nat n)) 2000 = (2000 \<le> n)" by (simp add: js_ge_def)
qed

lemma js_index_nat:
  "js_index arr (Fin (of_nat i)) = (if i < length arr then Some (arr ! i) else None)"
  by (simp add: js_index_def)

lemma numberToWords_NaN: "numberToWords NaN = Inr []"
  by (simp add: numberToWords.simps js_defs hundreds_block_def remainder_block_def trim_def)

lemma numberToWords_PInf: "numberToWords PInf = Inl RangeError"
  by (simp add: numberToWords.simps js_defs)

section \<open>Letters and their case\<close>

lemma code_unit_inj: "code_unit a = code_unit b \<longleftrightarrow> a = b"
  unfolding code_unit_def by simp

lemma code_unit_less: "code_unit c < 256"
  unfolding code_unit_def by (metis of_char_mod_256 mod_less_divisor zero_less_numeral)

lemma code_unit_char_of: "n < 256 \<Longrightarrow> code_unit (char_of n) = n"
  unfolding code_unit_def by (simp add: of_char_of)

lemma code_unit_upper:
  "code_unit (upper_char c) = (if has_capital c then code_unit c - 32 else code_unit c)"
  using code_unit_less[of c] unfolding upper_char_def by (simp add: code_unit_char_of)

lemma code_unit_lower:
  "code_unit (lower_char c) = (if has_small c then code_unit c + 32 else code_unit c)"
  unfolding lower_char_def by (simp add: code_unit_char_of has_small_def is_upper_def)

lemma lower_upper: "lower_char (upper_char c) = lower_char c"
proof -
  have "code_unit (lower_char (upper_char c)) = code_unit (lower_char c)"
    unfolding code_unit_lower code_unit_upper has_small_def is_upper_def has_capital_def
      is_lower_def code_unit_upper
    by auto
  then show ?thesis by (simp only: code_unit_inj)
qed

lemma upper_lower: "upper_char (lower_char c) = upper_char c"
proof -
  have "code_unit (upper_char (lower_char c)) = code_unit (upper_char c)"
    unfolding code_unit_lower code_unit_upper has_small_def is_upper_def has_capital_def
      is_lower_def code_unit_lower
    by auto
  then show ?thesis by (simp only: code_unit_inj)
qed

lemma same_letter: "upper_char a = upper_char b \<longleftrightarrow> lower_char a = lower_char b"
  by (metis lower_upper upper_lower)

lemmas char_eval = upper_char_def lower_char_def upper_chars_def has_capital_def has_small_def
  is_lower_def is_upper_def is_digit_def is_word_char_def is_white_space_def code_unit_def
  char_of_def bit_Suc_0_iff

lemma map_eq_map_iff:
  "map f xs = map f ys \<longleftrightarrow> length xs = length ys \<and> (\<forall>i < length xs. f (xs ! i) = f (ys ! i))"
  by (auto simp: list_eq_iff_nth_eq)

lemma same_case_string:
  "map upper_char s = map upper_char t \<longleftrightarrow> toLowerCase s = toLowerCase t"
  unfolding toLowerCase_def map_eq_map_iff by (simp add: same_letter)

lemma includes_str_iff:
  "includes_str s t \<longleftrightarrow> (\<exists>i \<le> length s. take (length t) (drop i s) = t)"
proof (induction s)
  case Nil
  then show ?case by auto
next
  case (Cons c cs)
  have "(\<exists>i \<le> length (c # cs). take (length t) (drop i (c # cs)) = t)
      \<longleftrightarrow> take (length t) (c # cs) = t \<or> (\<exists>i \<le> length cs. take (length t) (drop i cs) = t)"
    (is "?L \<longleftrightarrow> ?A \<or> ?B")
  proof
    assume ?L
    then obtain i where i: "i \<le> length (c # cs)" "take (length t) (drop i (c # cs)) = t" by blast
    show "?A \<or> ?B"
    proof (cases i)
      case 0
      then show ?thesis using i by simp
    next
      case (Suc j)
      then show ?thesis using i by auto
    qed
  next
    assume "?A \<or> ?B"
    then show ?L
    proof
      assume ?A
      then have "take (length t) (drop 0 (c # cs)) = t" by simp
      then show ?L by blast
    next
      assume ?B
      then obtain i where "i \<le> length cs" "take (length t) (drop i cs) = t" by blast
      then have "Suc i \<le> length (c # cs)" "take (length t) (drop (Suc i) (c # cs)) = t" by simp_all
      then show ?L by blast
    qed
  qed
  then show ?case using Cons.IH by simp
qed

text \<open>
  \<^verbatim>\<open>toUpperCase\<close> against a word \<open>t\<close> that holds neither \<^verbatim>\<open>S\<close> nor U+00DF: the two
  letters that U+00DF becomes match nothing in \<open>t\<close>, and every other code unit becomes
  one code unit.
\<close>

lemma upper_sharp_s: "upper_char (CHR 0xDF) = CHR 0xDF"
  by (simp add: char_eval)

lemma toUpperCase_Cons: "toUpperCase (c # cs) = upper_chars c @ toUpperCase cs"
  by (simp add: toUpperCase_def)

lemma upper_prefix:
  assumes "CHR ''S'' \<notin> set t" "CHR 0xDF \<notin> set t"
  shows "take (length t) (toUpperCase s) = t
    \<longleftrightarrow> length t \<le> length s \<and> map upper_char (take (length t) s) = t"
  using assms
proof (induction s arbitrary: t)
  case Nil
  then show ?case by (auto simp: toUpperCase_def)
next
  case (Cons c cs)
  show ?case
  proof (cases t)
    case Nil
    then show ?thesis by simp
  next
    case t: (Cons x xs)
    have x: "x \<noteq> CHR ''S''" "x \<noteq> CHR 0xDF" and xs: "CHR ''S'' \<notin> set xs" "CHR 0xDF \<notin> set xs"
      using Cons.prems unfolding t by auto
    note ih = Cons.IH[OF xs]
    show ?thesis
    proof (cases "c = CHR 0xDF")
      case True
      then show ?thesis unfolding t toUpperCase_Cons using x
        by (auto simp: upper_chars_def upper_sharp_s)
    next
      case False
      then show ?thesis unfolding t toUpperCase_Cons using ih
        by (auto simp: upper_chars_def)
    qed
  qed
qed


lemma includes_upper:
  assumes "CHR ''S'' \<notin> set t" "CHR 0xDF \<notin> set t" "t \<noteq> []"
  shows "includes_str (toUpperCase s) t
    \<longleftrightarrow> (\<exists>i. i + length t \<le> length s \<and> map upper_char (take (length t) (drop i s)) = t)"
proof (induction s)
  case Nil
  then show ?case using assms(3) by (simp add: toUpperCase_def)
next
  case (Cons c cs)
  let ?P = "\<lambda>s i. i + length t \<le> length s \<and> map upper_char (take (length t) (drop i s)) = t"
  have h: "hd t \<noteq> CHR ''S''" using assms(1,3) by (cases t) auto
  have split: "(\<exists>i. ?P (c # cs) i) \<longleftrightarrow> ?P (c # cs) 0 \<or> (\<exists>i. ?P cs i)"
  proof
    assume "\<exists>i. ?P (c # cs) i"
    then obtain i where i: "?P (c # cs) i" by blast
    show "?P (c # cs) 0 \<or> (\<exists>i. ?P cs i)"
    proof (cases i)
      case 0
      then show ?thesis using i by simp
    next
      case (Suc j)
      then have "?P cs j" using i by simp
      then show ?thesis by blast
    qed
  next
    assume "?P (c # cs) 0 \<or> (\<exists>i. ?P cs i)"
    then show "\<exists>i. ?P (c # cs) i"
    proof
      assume "?P (c # cs) 0"
      then show ?thesis by blast
    next
      assume "\<exists>i. ?P cs i"
      then obtain i where "?P cs i" by blast
      then have "?P (c # cs) (Suc i)" by simp
      then show ?thesis by blast
    qed
  qed
  have p0: "take (length t) (toUpperCase (c # cs)) = t \<longleftrightarrow> ?P (c # cs) 0"
    using upper_prefix[OF assms(1,2), of "c # cs"] by simp
  have "includes_str (toUpperCase (c # cs)) t
      \<longleftrightarrow> take (length t) (toUpperCase (c # cs)) = t \<or> includes_str (toUpperCase cs) t"
  proof (cases "c = CHR 0xDF")
    case True
    have "take (length t) (CHR ''S'' # u) \<noteq> t" for u
      using h assms(3) by (cases t) auto
    then show ?thesis unfolding toUpperCase_Cons using True
      by (simp add: upper_chars_def)
  next
    case False
    then show ?thesis unfolding toUpperCase_Cons by (simp add: upper_chars_def)
  qed
  then show ?case unfolding p0 split using Cons.IH by simp
qed

lemma upper_char_ci:
  assumes "map upper_char t = t"
  shows "map upper_char w = t \<longleftrightarrow> ci_equal w t"
proof -
  have "map upper_char w = t \<longleftrightarrow> map upper_char w = map upper_char t" using assms by simp
  then show ?thesis unfolding ci_equal_def same_case_string .
qed

lemma includes_upper_ci:
  assumes "map upper_char t = t" "CHR ''S'' \<notin> set t" "CHR 0xDF \<notin> set t" "t \<noteq> []"
  shows "includes_str (toUpperCase s) t \<longleftrightarrow> ci_contains s t"
proof -
  have "includes_str (toUpperCase s) t \<longleftrightarrow> (\<exists>i. ci_occurs_at t s i)"
    unfolding includes_upper[OF assms(2,3,4)] ci_occurs_at_def upper_char_ci[OF assms(1)] ..
  also have "\<dots> \<longleftrightarrow> ci_contains s t"
    unfolding ci_contains_def by (auto simp: ci_occurs_at_def)
  finally show ?thesis .
qed

lemma includes_lower_ci:
  assumes "toLowerCase t = t"
  shows "includes_str (toLowerCase s) t \<longleftrightarrow> ci_contains s t"
proof -
  have a: "take (length t) (drop i (toLowerCase s)) = t
      \<longleftrightarrow> ci_occurs_at t s i" if "i \<le> length s" for i
  proof -
    have "take (length t) (drop i (toLowerCase s)) = toLowerCase (take (length t) (drop i s))"
      unfolding toLowerCase_def by (simp add: take_map drop_map)
    then have "take (length t) (drop i (toLowerCase s)) = t
        \<longleftrightarrow> ci_equal (take (length t) (drop i s)) t" using assms unfolding ci_equal_def by simp
    also have "\<dots> \<longleftrightarrow> ci_occurs_at t s i"
    proof
      assume e: "ci_equal (take (length t) (drop i s)) t"
      then have "length (take (length t) (drop i s)) = length t"
        unfolding ci_equal_def toLowerCase_def by (metis length_map)
      then have "i + length t \<le> length s" using that by simp
      then show "ci_occurs_at t s i" using e unfolding ci_occurs_at_def by simp
    qed (simp add: ci_occurs_at_def)
    finally show ?thesis .
  qed
  have "includes_str (toLowerCase s) t
      \<longleftrightarrow> (\<exists>i \<le> length s. take (length t) (drop i (toLowerCase s)) = t)"
    unfolding includes_str_iff by (simp add: toLowerCase_def)
  also have "\<dots> \<longleftrightarrow> (\<exists>i \<le> length s. ci_occurs_at t s i)" using a by blast
  finally show ?thesis unfolding ci_contains_def by auto
qed


text \<open>The no-break space is white space.\<close>

lemma trim_no_break_space: "trim [CHR 0xA0] = []" "trim (CHR 0xA0 # ''haji'') = ''haji''"
  by (simp_all add: trim_def char_eval)

text \<open>The letters beyond ASCII: U+00C9 and U+00E9, and U+00DF.\<close>

lemma latin_case:
  "toLowerCase [CHR 0xC9] = [CHR 0xE9]" "toUpperCase [CHR 0xE9] = [CHR 0xC9]"
  "toUpperCase [CHR 0xDF] = ''SS''" "toLowerCase [CHR 0xD7] = [CHR 0xD7]"
  "toUpperCase [CHR 0xF7] = [CHR 0xF7]"
  by (simp_all add: toLowerCase_def toUpperCase_def char_eval)

section \<open>The global replacement of \<^verbatim>\<open>haji\<close>\<close>

text \<open>
  No two occurrences of \<^verbatim>\<open>haji\<close> overlap, so the scan from left to right of the
  regular expression replaces every one of them.
\<close>

lemma all_less_4: "(\<forall>i<4. P i) \<longleftrightarrow> P 0 \<and> P (Suc 0) \<and> P 2 \<and> P (3::nat)"
proof -
  have "i < 4 \<longleftrightarrow> i = 0 \<or> i = Suc 0 \<or> i = 2 \<or> i = 3" for i :: nat by arith
  then show ?thesis by auto
qed

lemma haji_occ_def:
  "ci_occurs_at ''haji'' s i \<longleftrightarrow> i + 4 \<le> length s \<and> ci_equal (take 4 (drop i s)) ''haji''"
proof -
  have l4: "length ''haji'' = (4::nat)" by simp
  show ?thesis unfolding ci_occurs_at_def l4 ..
qed

lemma haji_occurs_at:
  "ci_occurs_at ''haji'' s k \<longleftrightarrow>
     k + 4 \<le> length s \<and> lower_char (s ! k) = CHR ''h'' \<and> lower_char (s ! (k + 1)) = CHR ''a''
     \<and> lower_char (s ! (k + 2)) = CHR ''j'' \<and> lower_char (s ! (k + 3)) = CHR ''i''"
proof (cases "k + 4 \<le> length s")
  case True
  have l: "toLowerCase ''haji'' = ''haji''" by (simp add: toLowerCase_def char_eval)
  have "toLowerCase (take 4 (drop k s)) = ''haji'' \<longleftrightarrow>
      (\<forall>i<4. lower_char (s ! (k + i)) = ''haji'' ! i)"
    using True unfolding toLowerCase_def list_eq_iff_nth_eq by simp
  then show ?thesis using True unfolding haji_occ_def ci_equal_def l all_less_4
    by (simp add: numeral_2_eq_2 numeral_3_eq_3)
next
  case False
  then show ?thesis unfolding haji_occ_def by simp
qed

lemma haji_no_overlap:
  assumes "ci_occurs_at ''haji'' s k"
  shows "\<not> ci_occurs_at ''haji'' s (k + 1)" "\<not> ci_occurs_at ''haji'' s (k + 2)"
    "\<not> ci_occurs_at ''haji'' s (k + 3)"
  using assms unfolding haji_occurs_at by (auto simp: add.assoc)

lemma haji_test:
  "map upper_char (take 4 s) = map upper_char ''haji'' \<longleftrightarrow> ci_occurs_at ''haji'' s 0"
proof -
  have "map upper_char (take 4 s) = map upper_char ''haji'' \<longleftrightarrow> ci_equal (take 4 s) ''haji''"
    unfolding ci_equal_def by (rule same_case_string)
  moreover have "ci_equal (take 4 s) ''haji'' \<Longrightarrow> 4 \<le> length s"
  proof -
    assume "ci_equal (take 4 s) ''haji''"
    then have "length (take 4 s) = length ''haji''"
      unfolding ci_equal_def toLowerCase_def by (metis length_map)
    then show ?thesis by simp
  qed
  ultimately show ?thesis unfolding haji_occ_def by auto
qed

lemma replace_haji_drop:
  assumes "\<forall>j. j < k \<and> k < j + 4 \<longrightarrow> \<not> ci_occurs_at ''haji'' s j"
  shows "replace_haji (drop k s)
    = concat (map (\<lambda>i. if ci_occurs_at ''haji'' s i then ''Hajjah''
                        else if ci_covered ''haji'' s i then [] else [s ! i])
                  [k..<length s])"
  using assms
proof (induction "length s - k" arbitrary: k rule: less_induct)
  case less
  let ?p = "\<lambda>i. if ci_occurs_at ''haji'' s i then ''Hajjah''
                 else if ci_covered ''haji'' s i then [] else [s ! i]"
  show ?case
  proof (cases "k < length s")
    case False
    then show ?thesis by simp
  next
    case True
    then have d: "drop k s = s ! k # drop (Suc k) s" by (simp add: Cons_nth_drop_Suc)
    have t: "map upper_char (take 4 (drop k s)) = map upper_char ''haji''
        \<longleftrightarrow> ci_occurs_at ''haji'' s k"
      unfolding haji_test using True by (auto simp: haji_occ_def)
    show ?thesis
    proof (cases "ci_occurs_at ''haji'' s k")
      case occ: True
      then have len: "k + 4 \<le> length s" unfolding haji_occ_def by simp
      note no = haji_no_overlap[OF occ]
      have nc: "\<forall>j. j < k + 4 \<and> k + 4 < j + 4 \<longrightarrow> \<not> ci_occurs_at ''haji'' s j"
      proof (intro allI impI)
        fix j assume "j < k + 4 \<and> k + 4 < j + 4"
        then have "j = k + 1 \<or> j = k + 2 \<or> j = k + 3" by arith
        then show "\<not> ci_occurs_at ''haji'' s j" using no by auto
      qed
      have "length s - (k + 4) < length s - k" using True by simp
      then have ih: "replace_haji (drop (k + 4) s) = concat (map ?p [k + 4..<length s])"
        using less.hyps nc by blast
      have cov: "ci_covered ''haji'' s (k + 1)" "ci_covered ''haji'' s (k + 2)"
        "ci_covered ''haji'' s (k + 3)"
        using occ unfolding ci_covered_def by auto
      have "[k..<k + 4] = [k, k + 1, k + 2, k + 3]"
        by (simp add: upt_conv_Cons eval_nat_numeral)
      moreover have "[k..<length s] = [k..<k + 4] @ [k + 4..<length s]"
        using len by (metis le_add1 le_Suc_ex upt_add_eq_append)
      ultimately have "[k..<length s] = [k, k + 1, k + 2, k + 3] @ [k + 4..<length s]"
        by simp
      then have "concat (map ?p [k..<length s]) = ''Hajjah'' @ concat (map ?p [k + 4..<length s])"
        using occ no cov by simp
      moreover have "replace_haji (drop k s) = ''Hajjah'' @ replace_haji (drop (k + 4) s)"
      proof -
        have "replace_haji (s ! k # drop (Suc k) s)
            = ''Hajjah'' @ replace_haji (drop 3 (drop (Suc k) s))"
          by (simp only: replace_haji.simps(2) t[unfolded d] occ if_True)
        moreover have "drop 3 (drop (Suc k) s) = drop (k + 4) s" by (simp add: add.commute)
        ultimately show ?thesis unfolding d by simp
      qed
      ultimately show ?thesis using ih by simp
    next
      case nocc: False
      have nc: "\<forall>j. j < Suc k \<and> Suc k < j + 4 \<longrightarrow> \<not> ci_occurs_at ''haji'' s j"
      proof (intro allI impI)
        fix j assume a: "j < Suc k \<and> Suc k < j + 4"
        show "\<not> ci_occurs_at ''haji'' s j"
        proof (cases "j = k")
          case True then show ?thesis using nocc by simp
        next
          case False
          then have "j < k \<and> k < j + 4" using a by arith
          then show ?thesis using less.prems by blast
        qed
      qed
      have "length s - Suc k < length s - k" using True by simp
      then have ih: "replace_haji (drop (Suc k) s) = concat (map ?p [Suc k..<length s])"
        using less.hyps nc by blast
      have ncov: "\<not> ci_covered ''haji'' s k"
        using less.prems unfolding ci_covered_def by auto
      have "[k..<length s] = k # [Suc k..<length s]" using True by (simp add: upt_conv_Cons)
      then have "concat (map ?p [k..<length s]) = s ! k # concat (map ?p [Suc k..<length s])"
        using nocc ncov by simp
      moreover have "replace_haji (drop k s) = s ! k # replace_haji (drop (Suc k) s)"
      proof -
        have "replace_haji (s ! k # drop (Suc k) s) = s ! k # replace_haji (drop (Suc k) s)"
          by (simp only: replace_haji.simps(2) t[unfolded d] nocc if_False)
        then show ?thesis unfolding d by simp
      qed
      ultimately show ?thesis using ih by simp
    qed
  qed
qed

lemma replace_haji_every: "replace_haji s = replace_every ''haji'' ''Hajjah'' s"
  using replace_haji_drop[of 0 s] unfolding replace_every_def by simp

section \<open>\<^verbatim>\<open>numberToWords\<close> on the natural numbers\<close>

text \<open>\<^verbatim>\<open>trim\<close> leaves a clean string alone, and removes one space appended to it.\<close>

declare spec_spell.simps [simp del]

lemma dropWhile_hd: "xs \<noteq> [] \<Longrightarrow> \<not> P (hd xs) \<Longrightarrow> dropWhile P xs = xs"
  by (cases xs) auto

lemma not_clean_Nil [simp]: "\<not> clean []"
  by (simp add: clean_def)

lemma trim_clean: assumes "clean w" shows "trim w = w"
proof -
  have 1: "dropWhile is_white_space w = w" using assms unfolding clean_def by (simp add: dropWhile_hd)
  have "rev w \<noteq> []" "\<not> is_white_space (hd (rev w))"
    using assms unfolding clean_def by (simp_all add: hd_rev)
  then have "dropWhile is_white_space (rev w) = rev w" by (rule dropWhile_hd)
  then show ?thesis unfolding trim_def 1 by simp
qed

lemma sp: "is_white_space CHR '' ''" by (simp add: char_eval)

lemma trim_clean_space: assumes "clean w" shows "trim (w @ '' '') = w"
proof -
  have "w @ '' '' \<noteq> []" "\<not> is_white_space (hd (w @ '' ''))"
    using assms unfolding clean_def by simp_all
  then have 1: "dropWhile is_white_space (w @ '' '') = w @ '' ''" by (rule dropWhile_hd)
  have "rev w \<noteq> []" "\<not> is_white_space (hd (rev w))"
    using assms unfolding clean_def by (simp_all add: hd_rev)
  then have "dropWhile is_white_space (rev w) = rev w" by (rule dropWhile_hd)
  then have "dropWhile is_white_space (rev (w @ '' '')) = rev w" using sp by simp
  then show ?thesis unfolding trim_def 1 by simp
qed

lemma clean_append: "clean a \<Longrightarrow> clean b \<Longrightarrow> clean (a @ s @ b)"
  unfolding clean_def by (cases a) auto

lemma clean_units: assumes "1 \<le> h" "h < 10" shows "clean (units ! h)"
proof -
  have "list_all clean (tl units)" by (simp add: units_def clean_def char_eval)
  moreover have "h - 1 < length (tl units)" using assms by (simp add: units_def)
  ultimately have "clean (tl units ! (h - 1))" unfolding list_all_length by blast
  moreover have "tl units ! (h - 1) = units ! Suc (h - 1)"
    using assms by (intro nth_tl) (simp add: units_def)
  ultimately show ?thesis using assms by simp
qed

lemma clean_teens: assumes "h < 10" shows "clean (teens ! h)"
proof -
  have "list_all clean teens" by (simp add: teens_def clean_def char_eval)
  moreover have "h < length teens" using assms by (simp add: teens_def)
  ultimately show ?thesis unfolding list_all_length by blast
qed

lemma clean_tens: assumes "2 \<le> h" "h < 10" shows "clean (tens ! h)"
proof -
  have "list_all clean (drop 2 tens)" by (simp add: tens_def clean_def char_eval)
  moreover have "h - 2 < length (drop 2 tens)" using assms by (simp add: tens_def)
  ultimately have "clean (drop 2 tens ! (h - 2))" unfolding list_all_length by blast
  moreover have "drop 2 tens ! (h - 2) = tens ! (2 + (h - 2))"
    using assms by (intro nth_drop) (simp add: tens_def)
  moreover have "2 + (h - 2) = h" using assms by linarith
  ultimately show ?thesis by (simp only:)
qed

lemma clean_remainder_words: assumes "0 < r" "r < 100" shows "clean (remainder_words r)"
proof -
  consider "r < 10" | "10 \<le> r" "r < 20" | "20 \<le> r" "r mod 10 = 0" | "20 \<le> r" "r mod 10 \<noteq> 0"
    by linarith
  then show ?thesis
  proof cases
    case 1 then show ?thesis using assms by (simp add: remainder_words_def clean_units)
  next
    case 2 then show ?thesis by (simp add: remainder_words_def clean_teens)
  next
    case 3
    then have "clean (tens ! (r div 10))" using assms by (intro clean_tens) auto
    then show ?thesis using 3 by (simp add: remainder_words_def)
  next
    case 4
    then have "clean (tens ! (r div 10))" using assms by (intro clean_tens) auto
    moreover have "clean (units ! (r mod 10))" using 4 by (intro clean_units) auto
    ultimately have "clean (tens ! (r div 10) @ '' '' @ units ! (r mod 10))" by (rule clean_append)
    then show ?thesis using 4 by (simp add: remainder_words_def)
  qed
qed

lemma clean_literal: "clean ''seratus''" "clean ''seribu''" "clean ''ratus''" "clean ''ribu''" "clean ''nol''"
  by (simp_all add: clean_def char_eval)

lemma clean_hundreds_words: assumes "0 < h" "h < 10" shows "clean (hundreds_words h)"
proof (cases "h = 1")
  case True then show ?thesis by (simp add: hundreds_words_def clean_literal)
next
  case False
  then have "clean (units ! h)" using assms by (intro clean_units) auto
  then have "clean (units ! h @ '' '' @ ''ratus'')" using clean_literal(3) by (rule clean_append)
  then show ?thesis using False assms by (simp add: hundreds_words_def)
qed


lemma below_2_53: "n < 1000 \<Longrightarrow> n < (2::nat) ^ 53"
  by (rule less_trans[where y = 1000]) simp_all

lemma hundreds_block_nat:
  assumes "m < 1000"
  shows "hundreds_block (w, Fin (of_nat m))
    = (w @ (if m div 100 = 0 then [] else hundreds_words (m div 100) @ '' ''),
       Fin (of_nat (m mod 100)))"
proof -
  have h: "m div 100 < 10" using assms by simp
  have i: "js_index units (Fin (of_nat (m div 100))) = Some (units ! (m div 100))"
    unfolding js_index_nat using h by (simp add: units_def)
  show ?thesis
    unfolding hundreds_block_def
    by (simp add: js_floor_div_consts(2)[OF below_2_53[OF assms]] js_compare_nat js_mod_consts i
        hundreds_words_def js_string_def)
qed

lemma remainder_block_nat:
  assumes "r < 100"
  shows "remainder_block (w, Fin (of_nat r)) = w @ remainder_words r"
proof -
  have b: "r < 2 ^ 53" using assms by (intro below_2_53) simp
  have u: "js_index units (Fin (of_nat r)) = Some (units ! r)" if "r < 10"
    unfolding js_index_nat using that by (simp add: units_def)
  have t: "js_index teens (js_sub (Fin (of_nat r)) 10) = Some (teens ! (r - 10))"
    if "10 \<le> r" "r < 20"
    unfolding js_sub_10[OF that(1) b] js_index_nat using that by (simp add: teens_def)
  have d: "js_index tens (js_floor (js_div (Fin (of_nat r)) 10)) = Some (tens ! (r div 10))"
    unfolding js_floor_div_consts(3)[OF b] js_index_nat using assms by (simp add: tens_def)
  have m: "js_index units (js_mod (Fin (of_nat r)) 10) = Some (units ! (r mod 10))"
    unfolding js_mod_consts js_index_nat by (simp add: units_def)
  have g: "js_gt (js_mod (Fin (of_nat r)) 10) 0 = (r mod 10 \<noteq> 0)"
    unfolding js_mod_consts js_compare_nat by simp
  show ?thesis
    unfolding remainder_block_def remainder_words_def
    by (simp add: js_compare_nat u t d m g js_string_def)
qed

lemma blocks_nat:
  assumes "m < 1000"
  shows "remainder_block (hundreds_block (w, Fin (of_nat m)))
    = w @ (if m div 100 = 0 then [] else hundreds_words (m div 100) @ '' '')
        @ remainder_words (m mod 100)"
  unfolding hundreds_block_nat[OF assms] by (simp add: remainder_block_nat)

text \<open>The three segments, each empty or clean, joined and trimmed.\<close>

lemma trim_segments:
  assumes "a = [] \<or> clean a" "b = [] \<or> clean b" "c = [] \<or> clean c"
  shows "trim ((if a = [] then [] else a @ '' '') @ (if b = [] then [] else b @ '' '') @ c)
    = join_words (filter (\<lambda>w. w \<noteq> []) [a, b, c])"
proof -
  have e: "trim [] = []" by (simp add: trim_def)
  have ne: "clean x \<Longrightarrow> x \<noteq> []" for x by (simp add: clean_def)
  have 2: "clean x \<Longrightarrow> clean y \<Longrightarrow> trim (x @ CHR '' '' # y) = x @ CHR '' '' # y" for x y
    using trim_clean[OF clean_append[of x y "'' ''"]] by simp
  have 3: "clean x \<Longrightarrow> clean y \<Longrightarrow> clean z
      \<Longrightarrow> trim (x @ CHR '' '' # y @ CHR '' '' # z) = x @ CHR '' '' # y @ CHR '' '' # z" for x y z
    using trim_clean[OF clean_append[OF _ clean_append[of y z "'' ''"], of x "'' ''"]] by simp
  have s2: "clean x \<Longrightarrow> clean y \<Longrightarrow> trim (x @ CHR '' '' # y @ '' '') = x @ CHR '' '' # y" for x y
    using trim_clean_space[OF clean_append[of x y "'' ''"]] by simp
  show ?thesis using assms
    by (auto simp: e ne trim_clean trim_clean_space 2 3 s2)
qed

lemma clean_spec_spell: "clean (spec_spell n)"
proof (induction n rule: less_induct)
  case (less n)
  show ?case
  proof (cases "n = 0")
    case True then show ?thesis by (simp add: spec_spell.simps clean_literal)
  next
    case False
    define a where "a = (if n div 1000 = 0 then [] else if n div 1000 = 1 then ''seribu''
              else spec_spell (n div 1000) @ '' ribu'')"
    define b where "b = hundreds_words (n mod 1000 div 100)"
    define c where "c = remainder_words (n mod 100)"
    have ca: "a = [] \<longleftrightarrow> n div 1000 = 0" "n div 1000 \<noteq> 0 \<Longrightarrow> clean a"
    proof -
      have "clean (spec_spell (n div 1000) @ '' '' @ ''ribu'')" if "n div 1000 \<noteq> 0"
        using that less.IH[of "n div 1000"] False clean_literal(4) by (intro clean_append) auto
      then show "n div 1000 \<noteq> 0 \<Longrightarrow> clean a" unfolding a_def by (simp add: clean_literal)
      then show "a = [] \<longleftrightarrow> n div 1000 = 0" unfolding a_def by (auto simp: clean_def)
    qed
    have cb: "b = [] \<longleftrightarrow> n mod 1000 div 100 = 0" "n mod 1000 div 100 \<noteq> 0 \<Longrightarrow> clean b"
    proof -
      show "n mod 1000 div 100 \<noteq> 0 \<Longrightarrow> clean b"
        unfolding b_def by (intro clean_hundreds_words) auto
      then show "b = [] \<longleftrightarrow> n mod 1000 div 100 = 0"
        unfolding b_def by (auto simp: clean_def hundreds_words_def)
    qed
    have cc: "c = [] \<longleftrightarrow> n mod 100 = 0" "n mod 100 \<noteq> 0 \<Longrightarrow> clean c"
    proof -
      show "n mod 100 \<noteq> 0 \<Longrightarrow> clean c"
        unfolding c_def by (intro clean_remainder_words) auto
      then show "c = [] \<longleftrightarrow> n mod 100 = 0"
        unfolding c_def by (auto simp: clean_def remainder_words_def)
    qed
    have some: "n div 1000 \<noteq> 0 \<or> n mod 1000 div 100 \<noteq> 0 \<or> n mod 100 \<noteq> 0"
    proof (rule ccontr)
      assume "\<not> ?thesis"
      then have z: "n div 1000 = 0" "n mod 1000 div 100 = 0" "n mod 100 = 0" by simp_all
      from z(1) have "n mod 1000 = n" by (simp add: div_eq_0_iff)
      with z(2) have "n < 100" by (simp add: div_eq_0_iff)
      with z(3) show False using False by simp
    qed
    have s: "spec_spell n = join_words (filter (\<lambda>w. w \<noteq> []) [a, b, c])"
      using False unfolding a_def b_def c_def by (subst spec_spell.simps) simp
    have 2: "clean x \<Longrightarrow> clean y \<Longrightarrow> clean (x @ CHR '' '' # y)" for x y
      using clean_append[of x y "'' ''"] by simp
    show ?thesis unfolding s using some ca cb cc by (auto simp: 2)
  qed
qed

lemma numberToWords_nat:
  assumes "n < 2 ^ 53"
  shows "numberToWords (Fin (of_nat n)) = Inr (spec_spell n)"
  using assms
proof (induction n rule: less_induct)
  case (less n)
  show ?case
  proof (cases "n = 0")
    case True
    then show ?thesis by (simp add: numberToWords.simps spec_spell.simps js_eq_def)
  next
    case False
    define T where "T = n div 1000"
    define a where "a = (if T = 0 then [] else if T = 1 then ''seribu''
              else spec_spell T @ '' ribu'')"
    define b where "b = hundreds_words (n mod 1000 div 100)"
    define c where "c = remainder_words (n mod 100)"
    have m: "n mod 1000 < 1000" by simp
    have mm: "n mod 1000 mod 100 = n mod 100" by (simp add: mod_mod_cancel)
    have ca: "a = [] \<or> clean a" "a = [] \<longleftrightarrow> T = 0"
    proof -
      have "clean (spec_spell T @ '' '' @ ''ribu'')"
        using clean_spec_spell clean_literal(4) by (intro clean_append) auto
      then show "a = [] \<or> clean a" unfolding a_def by (simp add: clean_literal)
      show "a = [] \<longleftrightarrow> T = 0" using clean_spec_spell[of T] unfolding a_def by (auto simp: clean_def)
    qed
    have cb: "b = [] \<or> clean b" "b = [] \<longleftrightarrow> n mod 1000 div 100 = 0"
    proof -
      have 1: "n mod 1000 div 100 \<noteq> 0 \<Longrightarrow> clean b"
        unfolding b_def by (intro clean_hundreds_words) auto
      then show "b = [] \<or> clean b" unfolding b_def by (auto simp: hundreds_words_def)
      show "b = [] \<longleftrightarrow> n mod 1000 div 100 = 0"
        using 1 unfolding b_def by (auto simp: clean_def hundreds_words_def)
    qed
    have cc: "c = [] \<or> clean c"
    proof -
      have "n mod 100 \<noteq> 0 \<Longrightarrow> clean c"
        unfolding c_def by (intro clean_remainder_words) auto
      then show ?thesis unfolding c_def by (auto simp: remainder_words_def)
    qed
    have tail: "trim (remainder_block (hundreds_block ((if a = [] then [] else a @ '' ''),
        Fin (of_nat (n mod 1000)))))
      = join_words (filter (\<lambda>w. w \<noteq> []) [a, b, c])"
      unfolding blocks_nat[OF m] mm using trim_segments[OF ca(1) cb(1) cc] cb(2)
      unfolding b_def c_def by simp
    have s: "spec_spell n = join_words (filter (\<lambda>w. w \<noteq> []) [a, b, c])"
      using False unfolding a_def b_def c_def T_def by (subst spec_spell.simps) simp
    have t: "js_floor (js_div (Fin (of_nat n)) 1000) = Fin (of_nat T)"
      unfolding T_def by (rule js_floor_div_consts(1)[OF less.prems])
    show ?thesis
    proof (cases "T = 0")
      case True
      then have "a = []" unfolding a_def by simp
      moreover have "n mod 1000 = n" using True unfolding T_def by (simp add: div_eq_0_iff)
      ultimately have "trim (remainder_block (hundreds_block ([], Fin (of_nat n))))
          = spec_spell n" using tail s by simp
      then show ?thesis using False True
        by (subst numberToWords.simps) (simp add: t js_eq_def js_gt_def)
    next
      case T0: False
      show ?thesis
      proof (cases "T = 1")
        case True
        then have "a = ''seribu''" unfolding a_def by simp
        then have "trim (remainder_block (hundreds_block (''seribu'' @ '' '',
            Fin (of_nat (n mod 1000))))) = spec_spell n" using tail s by simp
        then show ?thesis using False True
          by (subst numberToWords.simps) (simp add: t js_eq_def js_gt_def js_mod_consts)
      next
        case False
        have "T < n" using T0 unfolding T_def by simp
        moreover have "T < 2 ^ 53" using \<open>T < n\<close> less.prems by linarith
        ultimately have ih: "numberToWords (Fin (of_nat T)) = Inr (spec_spell T)"
          using less.IH by blast
        have "a = spec_spell T @ '' ribu''" using T0 False unfolding a_def by simp
        then have "trim (remainder_block (hundreds_block (spec_spell T @ '' ribu'' @ '' '',
            Fin (of_nat (n mod 1000))))) = spec_spell n" using tail s ca(2) T0 by simp
        then show ?thesis using \<open>n \<noteq> 0\<close> T0 False
          by (subst numberToWords.simps) (simp add: t js_eq_def js_gt_def js_mod_consts ih)
      qed
    qed
  qed
qed

section \<open>\<^verbatim>\<open>numberToWords\<close> on the negative numbers\<close>

lemma floor_div_neg:
  assumes "q < 0" "0 < d"
  shows "\<not> js_gt (js_floor (js_div (Fin q) d)) 0"
proof -
  have "q / d < 0" using assms by (simp add: divide_neg_pos)
  then consider "round_double (q / d) = NInf" | v where "round_double (q / d) = Fin v" "v \<le> 0"
    using round_double_neg by blast
  then show ?thesis
  proof cases
    case 1 then show ?thesis by (simp add: js_defs)
  next
    case 2
    then have "\<lfloor>v\<rfloor> \<le> 0" by linarith
    then show ?thesis using 2 by (simp add: js_defs)
  qed
qed

lemma numberToWords_negative: "q < 0 \<Longrightarrow> numberToWords (Fin q) = Inr []"
  using floor_div_neg[of q 1000] floor_div_neg[of q 100]
  by (subst numberToWords.simps)
     (simp add: hundreds_block_def remainder_block_def js_eq_def js_gt_def trim_def)

section \<open>\<^verbatim>\<open>dateToWords\<close> on well-formed dates\<close>

lemma digit_not_space: "is_digit c \<Longrightarrow> \<not> is_white_space c"
  unfolding is_digit_def is_white_space_def by auto

lemma digit_neq:
  assumes "is_digit c"
  shows "c \<noteq> CHR ''-''" "c \<noteq> CHR ''+''" "c \<noteq> CHR ''x''" "c \<noteq> CHR ''X''" "c \<noteq> CHR ''o''"
    "c \<noteq> CHR ''O''" "c \<noteq> CHR ''b''" "c \<noteq> CHR ''B''" "c \<noteq> CHR ''I''"
  using assms unfolding is_digit_def code_unit_def by auto

lemma digit_value_le: "is_digit c \<Longrightarrow> digit_value c \<le> 9"
  unfolding digit_value_def is_digit_def by auto

lemma digits_value_snoc: "digits_value b (ds @ [c]) = b * digits_value b ds + digit_value c"
  unfolding digits_value_def by simp

lemma digits_value_less: "list_all is_digit ds \<Longrightarrow> digits_value 10 ds < 10 ^ length ds"
proof (induction ds rule: rev_induct)
  case Nil
  then show ?case by (simp add: digits_value_def)
next
  case (snoc c ds)
  then have "digits_value 10 ds < 10 ^ length ds" "digit_value c \<le> 9"
    by (simp_all add: digit_value_le)
  then have "10 * digits_value 10 ds + digit_value c < 10 * 10 ^ length ds" by linarith
  then show ?case unfolding digits_value_snoc by simp
qed

lemma split_no_sep: "sep \<notin> set ds \<Longrightarrow> split sep ds = [ds]"
  by (induction ds) auto

lemma split_append: "sep \<notin> set ds \<Longrightarrow> split sep (ds @ sep # rest) = ds # split sep rest"
  by (induction ds) auto

lemma Number_digits:
  assumes "ds \<noteq> []" "list_all is_digit ds" "length ds \<le> 15"
  shows "Number ds = Fin (of_nat (digits_value 10 ds))"
proof -
  obtain c cs where ds: "ds = c # cs" using assms(1) by (cases ds) auto
  have c: "is_digit c" using assms(2) unfolding ds by simp
  have "is_digit (last ds)" using assms(1,2) by (simp add: list_all_iff)
  then have "clean ds" unfolding clean_def using assms(1) c ds by (simp add: digit_not_space)
  then have t: "trim ds = ds" by (rule trim_clean)
  have p: "take 2 ds \<notin> {''0x'', ''0X''}" "take 2 ds \<notin> {''0o'', ''0O''}"
    "take 2 ds \<notin> {''0b'', ''0B''}"
    using assms(2) digit_neq unfolding ds by (cases cs; auto)+
  have s: "sign_part ds = (1, ds)" unfolding sign_part_def ds using digit_neq[OF c] by simp
  have i: "ds \<noteq> ''Infinity''" unfolding ds using digit_neq[OF c] by simp
  have tw: "takeWhile is_digit ds = ds" "dropWhile is_digit ds = []"
    using assms(2) by (simp_all add: list_all_iff)
  have u: "unsigned_decimal ds = Some (of_nat (digits_value 10 ds))"
    unfolding unsigned_decimal_def tw using assms(1) by (simp add: exponent_part_def)
  have "digits_value 10 ds < 10 ^ length ds" using assms(2) by (rule digits_value_less)
  also have "\<dots> \<le> (10::nat) ^ 15" using assms(3) by (intro power_increasing) simp_all
  also have "\<dots> < 2 ^ 53" by simp
  finally have r: "round_double (of_nat (digits_value 10 ds)) = Fin (of_nat (digits_value 10 ds))"
    by (rule round_double_nat)
  show ?thesis unfolding Number_def t Let_def using assms(1) p by (simp add: s i u r)
qed

lemma well_formed_split:
  assumes "well_formed_date s"
  shows "split CHR ''-'' s = [take 2 s, take 2 (drop 3 s), drop 6 s]"
proof -
  have l: "length s = 10" and h: "s ! 2 = CHR ''-''" "s ! 5 = CHR ''-''"
    and d: "list_all is_digit (take 2 s)" "list_all is_digit (take 2 (drop 3 s))"
      "list_all is_digit (drop 6 s)"
    using assms unfolding well_formed_date_def by simp_all
  have n: "CHR ''-'' \<notin> set (take 2 s)" "CHR ''-'' \<notin> set (take 2 (drop 3 s))"
    "CHR ''-'' \<notin> set (drop 6 s)"
    using d digit_neq(1) unfolding list_all_iff by blast+
  have 1: "drop 2 s = CHR ''-'' # drop 3 s" using l h(1) Cons_nth_drop_Suc[of 2 s] by simp
  have 2: "drop 5 s = CHR ''-'' # drop 6 s" using l h(2) Cons_nth_drop_Suc[of 5 s] by simp
  have "s = take 2 s @ drop 2 s" by simp
  also have "drop 2 s = CHR ''-'' # take 2 (drop 3 s) @ drop 2 (drop 3 s)"
    unfolding 1 by (simp only: append_take_drop_id)
  also have "drop 2 (drop 3 s) = CHR ''-'' # drop 6 s" using 2 by simp
  finally have e: "s = take 2 s @ CHR ''-'' # take 2 (drop 3 s) @ CHR ''-'' # drop 6 s" .
  have "split CHR ''-'' (take 2 s @ CHR ''-'' # take 2 (drop 3 s) @ CHR ''-'' # drop 6 s)
      = [take 2 s, take 2 (drop 3 s), drop 6 s]"
    by (simp add: split_append[OF n(1)] split_append[OF n(2)] split_no_sep[OF n(3)])
  then show ?thesis using e by simp
qed

lemma dateToWords_well_formed:
  assumes "well_formed_date s"
  shows "dateToWords s
    = spec_spell (day_of s) @ '' '' @ js_string (js_index months (Fin (of_nat (month_of s))))
      @ '' '' @ (if 2000 \<le> year_of s then ''tahun '' else '''') @ spec_spell (year_of s)"
proof -
  have l: "length s = 10"
    and d: "list_all is_digit (take 2 s)" "list_all is_digit (take 2 (drop 3 s))"
      "list_all is_digit (drop 6 s)"
    using assms unfolding well_formed_date_def by simp_all
  have N: "Number (take 2 s) = Fin (of_nat (day_of s))"
    "Number (take 2 (drop 3 s)) = Fin (of_nat (month_of s))"
    "Number (drop 6 s) = Fin (of_nat (year_of s))"
  proof -
    show "Number (take 2 s) = Fin (of_nat (day_of s))"
      unfolding day_of_def using l d(1) by (intro Number_digits) auto
    show "Number (take 2 (drop 3 s)) = Fin (of_nat (month_of s))"
      unfolding month_of_def using l d(2) by (intro Number_digits) auto
    show "Number (drop 6 s) = Fin (of_nat (year_of s))"
      unfolding year_of_def using l d(3) by (intro Number_digits) auto
  qed
  have b: "day_of s < 10 ^ 2" "year_of s < 10 ^ 4"
    unfolding day_of_def year_of_def
    using digits_value_less[OF d(1)] digits_value_less[OF d(3)] l by simp_all
  have "day_of s < 2 ^ 53" "year_of s < 2 ^ 53" using b by simp_all
  then have w: "numberToWords (Fin (of_nat (day_of s))) = Inr (spec_spell (day_of s))"
    "numberToWords (Fin (of_nat (year_of s))) = Inr (spec_spell (year_of s))"
    by (simp_all add: numberToWords_nat)
  show ?thesis
    unfolding dateToWords_def well_formed_split[OF assms] Let_def
    by (simp add: element_def N w js_compare_nat)
qed

section \<open>Evaluation\<close>

lemmas str_defs = trim_def is_white_space_def code_unit_def is_digit_def

lemmas Number_defs = Number_def sign_part_def unsigned_decimal_def exponent_part_def

lemmas spell_eval = spec_spell.simps hundreds_words_def remainder_words_def units_def teens_def
  tens_def

lemmas date_eval = well_formed_date_def day_of_def month_of_def year_of_def digits_value_def
  digit_value_def is_digit_def code_unit_def

lemmas ci_eval = ci_contains_def ci_occurs_at_def ci_equal_def toLowerCase_def toUpperCase_def
  atLeastAtMost_upt upt_rec_numeral


text \<open>
  The \<^verbatim>\<open>catch\<close> clause of \<^verbatim>\<open>dateToWords\<close> is reached when \<^verbatim>\<open>numberToWords\<close> exhausts
  the stack, which a component \<^verbatim>\<open>Infinity\<close> brings about.
\<close>

lemma dateToWords_Infinity: "dateToWords ''01-01-Infinity'' = []"
proof -
  have "Number ''Infinity'' = PInf" by (simp add: Number_defs str_defs)
  moreover have "split CHR ''-'' ''01-01-Infinity'' = [''01'', ''01'', ''Infinity'']" by simp
  ultimately show ?thesis
    by (simp add: dateToWords_def element_def numberToWords_PInf)
qed

text \<open>
  The name block: a prefix that is empty after \<^verbatim>\<open>trim\<close> gives no prefix segment, and
  an absent or empty suffix gives no suffix segment.
\<close>

lemma formattedName_no_prefix:
  assumes "trim (case gelarDepanExpanded data of None \<Rightarrow> [] | Some s \<Rightarrow> s) = []"
  shows "formattedName data
    = toUpperCase (nama data)
      @ (case gelarBelakangExpanded data of
           None \<Rightarrow> [] | Some s \<Rightarrow> if s \<noteq> [] then '', '' @ toTitleCase s else [])"
  using assms by (simp add: formattedName_def gelarDepan_def toLowerCase_def)

lemma formattedName_no_suffix:
  assumes "gelarBelakangExpanded data = None \<or> gelarBelakangExpanded data = Some []"
  shows "formattedName data
    = (if gelarDepan data \<noteq> [] then toTitleCase (gelarDepan data) @ '' '' else [])
      @ toUpperCase (nama data)"
  using assms by (auto simp: formattedName_def)

text \<open>
  \<^verbatim>\<open>dateToWords\<close> returns the empty string only through its \<^verbatim>\<open>catch\<close> clause: what
  the template literal builds holds two spaces at least.
\<close>

lemma dateToWords_empty_iff:
  "dateToWords s = [] \<longleftrightarrow>
     (let parts = map Number (split CHR ''-'' s)
      in (\<exists>e. numberToWords (element parts 2) = Inl e)
         \<or> (\<exists>e. numberToWords (element parts 0) = Inl e))"
  unfolding dateToWords_def Let_def by (auto split: sum.splits)

section \<open>The claims\<close>

text \<open>
  C1. The claim: for every input string that is not a well-formed DD-MM-YYYY date,
  \<^verbatim>\<open>dateToWords\<close> returns the empty string, in particular on \<^verbatim>\<open>"not-a-date"\<close>. The code
  does not: \<^verbatim>\<open>Number\<close> does not throw on a string that is no numeral, it returns NaN,
  so the \<^verbatim>\<open>catch\<close> clause is not reached. \<^verbatim>\<open>numberToWords(NaN)\<close> is the empty string
  and \<^verbatim>\<open>months[NaN]\<close> is \<^verbatim>\<open>undefined\<close>, and the template literal yields
  \<^verbatim>\<open>" undefined "\<close>.
\<close>

theorem dateToWords_not_a_date: "dateToWords ''not-a-date'' = '' undefined ''"
proof -
  have "map Number (split CHR ''-'' ''not-a-date'') = [NaN, NaN, NaN]"
    by (simp add: Number_defs str_defs)
  then show ?thesis
    by (simp add: dateToWords_def element_def numberToWords_NaN js_defs)
qed

text \<open>
  C2. The claim: in the name block the prefix segment is omitted when the prefix is empty
  and the suffix segment when the suffix is empty, for every input, white space only
  included, so that no blank honorific phrase is rendered. The prefix is trimmed before
  the test and a prefix of white space is omitted; the suffix is tested as it is, and a
  suffix of white space is rendered: for the suffix \<^verbatim>\<open>" "\<close> the name block ends with a
  comma and two spaces.
\<close>

theorem formattedName_blank_suffix:
  "gelarBelakangExpanded example_tuan = Some '' ''
   \<and> formattedName example_tuan = ''BUDI SANTOSO,  ''
   \<and> (\<exists>rest. formatParagraph example_tuan = ''<strong>Tuan BUDI SANTOSO,  </strong>'' @ rest)"
proof -
  have g: "gelarDepan example_tuan = []"
    by (simp add: gelarDepan_def example_tuan_def trim_def toLowerCase_def char_eval)
  have n: "formattedName example_tuan = ''BUDI SANTOSO,  ''"
    unfolding formattedName_def g
    by (simp add: example_tuan_def toTitleCase_def toUpperCase_def toLowerCase_def char_eval)
  have s: "salutation example_tuan = ''Tuan''"
    by (simp add: salutation_def example_tuan_def toUpperCase_def char_eval)
  have "nik example_tuan \<noteq> []" by (simp add: example_tuan_def)
  then have "\<exists>rest. formatParagraph example_tuan = ''<strong>Tuan BUDI SANTOSO,  </strong>'' @ rest"
    unfolding formatParagraph_def n s by simp
  then show ?thesis using n by (simp add: example_tuan_def)
qed

text \<open>
  C3. On the natural numbers below \<open>2 ^ 53\<close>, \<^verbatim>\<open>numberToWords\<close> returns what the
  specification's speller returns: the thousands, the hundreds and the remainder below
  one hundred, with \<^verbatim>\<open>seribu\<close> and \<^verbatim>\<open>seratus\<close> for exactly one thousand and one hundred,
  the teen words from 10 to 19, and no unit word after a multiple of ten. In particular
  0, 15, 100, 1000 and 2024 are spelled \<^verbatim>\<open>nol\<close>, \<^verbatim>\<open>lima belas\<close>, \<^verbatim>\<open>seratus\<close>,
  \<^verbatim>\<open>seribu\<close> and \<^verbatim>\<open>dua ribu dua puluh empat\<close>.
\<close>

theorem numberToWords_spec:
  "(n < 2 ^ 53 \<longrightarrow> numberToWords (Fin (of_nat n)) = Inr (spec_spell n))
   \<and> numberToWords (Fin 0) = Inr ''nol''
   \<and> numberToWords (Fin 15) = Inr ''lima belas''
   \<and> numberToWords (Fin 100) = Inr ''seratus''
   \<and> numberToWords (Fin 1000) = Inr ''seribu''
   \<and> numberToWords (Fin 2024) = Inr ''dua ribu dua puluh empat''"
proof -
  have "numberToWords (Fin (of_nat k)) = Inr (spec_spell k)" if "k \<le> 2024" for k
    using that by (intro numberToWords_nat) simp
  from this[of 0] this[of 15] this[of 100] this[of 1000] this[of 2024]
  show ?thesis by (simp add: numberToWords_nat spell_eval)
qed

theorem numberToWords_spec_witness:
  "(999999::nat) < 2 ^ 53
   \<and> numberToWords (Fin 999999) = Inr ''sembilan ratus sembilan puluh sembilan ribu sembilan ratus sembilan puluh sembilan''"
  using numberToWords_spec[of 999999] by (simp add: spell_eval)



text \<open>
  C5. When the trimmed prefix honorific contains \<^verbatim>\<open>haji\<close> up to case and the gender
  field contains \<^verbatim>\<open>PEREMPUAN\<close> up to case, the prefix that \<^verbatim>\<open>formatParagraph\<close> renders
  is the trimmed prefix with every occurrence of \<^verbatim>\<open>haji\<close> up to case replaced by
  \<^verbatim>\<open>Hajjah\<close>; otherwise, in particular when the gender does not contain
  \<^verbatim>\<open>PEREMPUAN\<close>, it is the trimmed prefix unchanged. The title-casing is applied to that
  prefix, and the result leads the name block.
\<close>

theorem gelarDepan_hajjah:
  "gelarDepan data =
     (let p = trim (case gelarDepanExpanded data of None \<Rightarrow> '''' | Some s \<Rightarrow> s)
      in if ci_contains p ''haji'' \<and> ci_contains (jenisKelamin data) ''PEREMPUAN''
         then replace_every ''haji'' ''Hajjah'' p else p)
   \<and> (nik data \<noteq> [] \<and> gelarDepan data \<noteq> [] \<longrightarrow>
        (\<exists>rest. formatParagraph data
           = ''<strong>'' @ salutation data @ '' '' @ toTitleCase (gelarDepan data) @ '' '' @ rest))"
proof
  have 1: "toLowerCase ''haji'' = ''haji''" by (simp add: toLowerCase_def char_eval)
  have 2: "map upper_char ''PEREMPUAN'' = ''PEREMPUAN''" "CHR ''S'' \<notin> set ''PEREMPUAN''"
    "CHR 0xDF \<notin> set ''PEREMPUAN''" "''PEREMPUAN'' \<noteq> []"
    by (simp_all add: char_eval)
  show "gelarDepan data =
     (let p = trim (case gelarDepanExpanded data of None \<Rightarrow> '''' | Some s \<Rightarrow> s)
      in if ci_contains p ''haji'' \<and> ci_contains (jenisKelamin data) ''PEREMPUAN''
         then replace_every ''haji'' ''Hajjah'' p else p)"
    unfolding gelarDepan_def Let_def includes_lower_ci[OF 1] includes_upper_ci[OF 2]
      replace_haji_every by simp
  show "nik data \<noteq> [] \<and> gelarDepan data \<noteq> [] \<longrightarrow>
        (\<exists>rest. formatParagraph data
           = ''<strong>'' @ salutation data @ '' '' @ toTitleCase (gelarDepan data) @ '' '' @ rest)"
    unfolding formatParagraph_def formattedName_def by simp
qed

theorem gelarDepan_hajjah_witness:
  "ci_contains (trim '' haji HAJI '') ''haji''
   \<and> ci_contains (jenisKelamin example_hajjah) ''PEREMPUAN''
   \<and> nik example_hajjah \<noteq> []
   \<and> gelarDepan example_hajjah = ''Hajjah Hajjah''
   \<and> (\<exists>rest. formatParagraph example_hajjah = ''<strong>Nyonya Hajjah Hajjah '' @ rest)"
proof -
  have t: "trim '' haji HAJI '' = ''haji HAJI''" by (simp add: trim_def char_eval)
  have c: "ci_contains ''haji HAJI'' ''haji''" by (simp add: ci_eval char_eval)
  have p: "ci_contains (jenisKelamin example_hajjah) ''PEREMPUAN''"
    by (simp add: example_hajjah_def ci_eval char_eval)
  have n: "nik example_hajjah \<noteq> []" by (simp add: example_hajjah_def)
  have r: "replace_every ''haji'' ''Hajjah'' ''haji HAJI'' = ''Hajjah Hajjah''"
    by (simp add: replace_every_def ci_covered_def ci_occurs_at_def ci_equal_def toLowerCase_def
        upt_rec_numeral atLeastLessThan_upt char_eval)
  have g: "gelarDepan example_hajjah = ''Hajjah Hajjah''"
    using gelarDepan_hajjah[of example_hajjah] c p r by (simp add: example_hajjah_def t)
  have tc: "toTitleCase ''Hajjah Hajjah'' = ''Hajjah Hajjah''"
    by (simp add: toTitleCase_def toLowerCase_def char_eval)
  have s: "salutation example_hajjah = ''Nyonya''"
    by (simp add: salutation_def example_hajjah_def toUpperCase_def char_eval)
  show ?thesis using gelarDepan_hajjah[of example_hajjah] c p n g
    by (simp add: t tc s)
qed

text \<open>
  C6. For every record whose \<^verbatim>\<open>nik\<close> is the empty string, \<^verbatim>\<open>formatParagraph\<close> returns
  exactly the fixed incomplete-data message, whatever the other fields hold; no field of
  the record appears in it.
\<close>

theorem formatParagraph_empty_nik:
  "nik data = [] \<Longrightarrow>
   formatParagraph data
     = ''Data tidak lengkap dari salah satu KTP. Pratinjau gambar mungkin tidak jelas.''"
  by (simp add: formatParagraph_def incomplete_message_def)

theorem formatParagraph_empty_nik_witness:
  "nik \<lparr>nik = '''', nama = ''Budi Santoso'', tempatLahir = ''BANDUNG'',
         tanggalLahir = ''17-08-1945'', jenisKelamin = ''LAKI-LAKI'', alamat = ''Jalan Merdeka 1'',
         rt = ''5'', rw = ''12'', kelDesa = ''CICENDO'', kecamatan = ''ANDIR'', kota = ''BANDUNG'',
         statusPerkawinan = ''KAWIN'', pekerjaan = ''GURU'', kewarganegaraan = ''WNI'',
         gelarDepanExpanded = Some ''Haji'', gelarBelakangExpanded = None\<rparr> = []
   \<and> formatParagraph \<lparr>nik = '''', nama = ''Budi Santoso'', tempatLahir = ''BANDUNG'',
         tanggalLahir = ''17-08-1945'', jenisKelamin = ''LAKI-LAKI'', alamat = ''Jalan Merdeka 1'',
         rt = ''5'', rw = ''12'', kelDesa = ''CICENDO'', kecamatan = ''ANDIR'', kota = ''BANDUNG'',
         statusPerkawinan = ''KAWIN'', pekerjaan = ''GURU'', kewarganegaraan = ''WNI'',
         gelarDepanExpanded = Some ''Haji'', gelarBelakangExpanded = None\<rparr>
     = ''Data tidak lengkap dari salah satu KTP. Pratinjau gambar mungkin tidak jelas.''"
  using formatParagraph_empty_nik
    [of "\<lparr>nik = '''', nama = ''Budi Santoso'', tempatLahir = ''BANDUNG'',
         tanggalLahir = ''17-08-1945'', jenisKelamin = ''LAKI-LAKI'', alamat = ''Jalan Merdeka 1'',
         rt = ''5'', rw = ''12'', kelDesa = ''CICENDO'', kecamatan = ''ANDIR'', kota = ''BANDUNG'',
         statusPerkawinan = ''KAWIN'', pekerjaan = ''GURU'', kewarganegaraan = ''WNI'',
         gelarDepanExpanded = Some ''Haji'', gelarBelakangExpanded = None\<rparr>"]
  by simp

text \<open>
  C7. For every well-formed date \<^verbatim>\<open>DD-MM-YYYY\<close> whose month is between 1 and 12,
  \<^verbatim>\<open>dateToWords\<close> returns the day in words, the name of the month from the table of
  twelve names, and the year in words, with \<^verbatim>\<open>tahun\<close> before the year exactly when the
  year is at least 2000; the words are those of \<^verbatim>\<open>numberToWords\<close>. In particular
  \<^verbatim>\<open>17-08-1945\<close> and \<^verbatim>\<open>01-01-2000\<close> are spelled as the specification says.
\<close>

theorem dateToWords_spelled:
  "(well_formed_date s \<and> 1 \<le> month_of s \<and> month_of s \<le> 12 \<longrightarrow>
      dateToWords s
        = spec_spell (day_of s) @ '' '' @ months ! month_of s @ '' ''
          @ (if 2000 \<le> year_of s then ''tahun '' else '''') @ spec_spell (year_of s)
      \<and> numberToWords (Fin (of_nat (day_of s))) = Inr (spec_spell (day_of s))
      \<and> numberToWords (Fin (of_nat (year_of s))) = Inr (spec_spell (year_of s)))
   \<and> tl months = [''Januari'', ''Februari'', ''Maret'', ''April'', ''Mei'', ''Juni'', ''Juli'',
                   ''Agustus'', ''September'', ''Oktober'', ''November'', ''Desember'']
   \<and> dateToWords ''17-08-1945''
       = ''tujuh belas Agustus seribu sembilan ratus empat puluh lima''
   \<and> dateToWords ''01-01-2000'' = ''satu Januari tahun dua ribu''"
proof (intro conjI impI)
  assume a: "well_formed_date s \<and> 1 \<le> month_of s \<and> month_of s \<le> 12"
  then have "js_index months (Fin (of_nat (month_of s))) = Some (months ! month_of s)"
    unfolding js_index_nat by (simp add: months_def)
  then show "dateToWords s
        = spec_spell (day_of s) @ '' '' @ months ! month_of s @ '' ''
          @ (if 2000 \<le> year_of s then ''tahun '' else '''') @ spec_spell (year_of s)"
    using a dateToWords_well_formed[of s] by (simp add: js_string_def)
  have d: "list_all is_digit (take 2 s)" "list_all is_digit (drop 6 s)" and l: "length s = 10"
    using a unfolding well_formed_date_def by simp_all
  have "day_of s < 10 ^ 2" "year_of s < 10 ^ 4"
    unfolding day_of_def year_of_def
    using digits_value_less[OF d(1)] digits_value_less[OF d(2)] l by simp_all
  then have "day_of s < 2 ^ 53" "year_of s < 2 ^ 53" by simp_all
  then show "numberToWords (Fin (of_nat (day_of s))) = Inr (spec_spell (day_of s))"
    "numberToWords (Fin (of_nat (year_of s))) = Inr (spec_spell (year_of s))"
    by (simp_all add: numberToWords_nat)
next
  show "tl months = [''Januari'', ''Februari'', ''Maret'', ''April'', ''Mei'', ''Juni'', ''Juli'',
                   ''Agustus'', ''September'', ''Oktober'', ''November'', ''Desember'']"
    by (simp add: months_def)
next
  have "well_formed_date ''17-08-1945''" by (simp add: date_eval)
  from dateToWords_well_formed[OF this]
  show "dateToWords ''17-08-1945''
       = ''tujuh belas Agustus seribu sembilan ratus empat puluh lima''"
    by (simp add: date_eval js_index_def js_string_def months_def spell_eval)
next
  have "well_formed_date ''01-01-2000''" by (simp add: date_eval)
  from dateToWords_well_formed[OF this]
  show "dateToWords ''01-01-2000'' = ''satu Januari tahun dua ribu''"
    by (simp add: date_eval js_index_def js_string_def months_def spell_eval)
qed

theorem dateToWords_spelled_witness:
  "well_formed_date ''31-12-1999'' \<and> 1 \<le> month_of ''31-12-1999'' \<and> month_of ''31-12-1999'' \<le> 12
   \<and> dateToWords ''31-12-1999''
       = ''tiga puluh satu Desember seribu sembilan ratus sembilan puluh sembilan''"
  using dateToWords_spelled[of "''31-12-1999''"]
  by (simp add: date_eval months_def spell_eval)

text \<open>
  C9. For every strictly negative integer, \<^verbatim>\<open>numberToWords\<close> returns the empty string:
  no band test holds, and nothing is thrown.
\<close>

theorem numberToWords_negative_integer:
  "n < 0 \<Longrightarrow> numberToWords (Fin (of_int n)) = Inr ''''"
  by (rule numberToWords_negative) simp

theorem numberToWords_negative_integer_witness:
  "(- 2024 :: int) < 0 \<and> numberToWords (Fin (- 2024)) = Inr ''''"
  using numberToWords_negative_integer[of "- 2024"] by simp

text \<open>
  C10. \<^verbatim>\<open>dateToWords\<close> does not check the range of the month: on \<^verbatim>\<open>01-13-1999\<close> the
  lookup of the month name is outside the table and yields \<^verbatim>\<open>undefined\<close>, and the
  result is a string that is not empty and holds that word. The same holds for every
  well-formed date whose month is above 12.
\<close>

theorem dateToWords_month_out_of_range:
  "dateToWords ''01-13-1999'' = ''satu undefined seribu sembilan ratus sembilan puluh sembilan''
   \<and> js_index months (Number ''13'') = None
   \<and> dateToWords ''01-13-1999'' \<noteq> []
   \<and> (well_formed_date s \<and> 12 < month_of s \<longrightarrow>
        dateToWords s
          = spec_spell (day_of s) @ '' undefined ''
            @ (if 2000 \<le> year_of s then ''tahun '' else []) @ spec_spell (year_of s))"
proof (intro conjI impI)
  have "well_formed_date ''01-13-1999''" by (simp add: date_eval)
  from dateToWords_well_formed[OF this]
  show 1: "dateToWords ''01-13-1999''
      = ''satu undefined seribu sembilan ratus sembilan puluh sembilan''"
    by (simp add: date_eval js_index_def js_string_def months_def spell_eval)
  have "Number ''13'' = Fin (of_nat (digits_value 10 ''13''))"
    by (intro Number_digits) (simp_all add: date_eval)
  then show "js_index months (Number ''13'') = None"
    by (simp add: date_eval js_index_def months_def)
  show "dateToWords ''01-13-1999'' \<noteq> []" unfolding 1 by simp
next
  assume a: "well_formed_date s \<and> 12 < month_of s"
  then have "js_index months (Fin (of_nat (month_of s))) = None"
    unfolding js_index_nat by (simp add: months_def)
  then show "dateToWords s
          = spec_spell (day_of s) @ '' undefined ''
            @ (if 2000 \<le> year_of s then ''tahun '' else []) @ spec_spell (year_of s)"
    using a dateToWords_well_formed[of s] by (simp add: js_string_def)
qed

theorem dateToWords_month_out_of_range_witness:
  "well_formed_date ''31-99-2024'' \<and> 12 < month_of ''31-99-2024''
   \<and> dateToWords ''31-99-2024'' = ''tiga puluh satu undefined tahun dua ribu dua puluh empat''"
  using dateToWords_month_out_of_range[of "''31-99-2024''"]
  by (simp add: date_eval spell_eval)

end
